theory Spec2Isabelle
  imports Main "HOL-Library.Word" "HOL-Library.Sublist"
begin

unbundle bit_operations_syntax

section \<open>Strings, bytes and the clock\<close>

text \<open>
  A JavaScript string is a sequence of UTF-16 code units; a code unit is kept as a
  natural number below \<open>0x10000\<close>.  A \<open>Uint8Array\<close> is a list of bytes.
\<close>

type_synonym jsstring = "nat list"
type_synonym bytes = "8 word list"

text \<open>String literals of the source; every character of them is below U+0100.\<close>

definition js :: "string \<Rightarrow> jsstring" where
  "js s = map of_char s"

text \<open>
  \<open>String.prototype.trim\<close> removes the ECMAScript WhiteSpace and LineTerminator code
  points from both ends.
\<close>

definition is_white_space :: "nat \<Rightarrow> bool" where
  "is_white_space c \<longleftrightarrow>
     c = 0x9 \<or> c = 0xA \<or> c = 0xB \<or> c = 0xC \<or> c = 0xD \<or> c = 0x20 \<or> c = 0xA0 \<or>
     c = 0x1680 \<or> (0x2000 \<le> c \<and> c \<le> 0x200A) \<or> c = 0x2028 \<or> c = 0x2029 \<or>
     c = 0x202F \<or> c = 0x205F \<or> c = 0x3000 \<or> c = 0xFEFF"

definition trim :: "jsstring \<Rightarrow> jsstring" where
  "trim s = rev (dropWhile is_white_space (rev (dropWhile is_white_space s)))"

text \<open>
  \<open>Number.prototype.toString\<close> on a non-negative integer: its decimal digits
  (\<open>Date.now()\<close> is an integer number of milliseconds, far below the \<open>1e21\<close> where
  JavaScript switches to exponent notation).
\<close>

fun toString :: "nat \<Rightarrow> jsstring" where
  "toString n = (if n < 10 then [48 + n] else toString (n div 10) @ [48 + n mod 10])"

declare toString.simps [simp del]

text \<open>
  The four clock readings of one submission, in the order the source takes them:
  \<open>Date.now()\<close> and \<open>new Date()\<close> for the user message, then \<open>Date.now()\<close> and
  \<open>new Date()\<close> for the assistant placeholder.
\<close>

record clock =
  now_user :: nat
  date_user :: nat
  now_assistant :: nat
  date_assistant :: nat

section \<open>Messages and the component state\<close>

datatype msg_type = User | Assistant

text \<open>\<open>isStreaming\<close> is an optional field: \<open>None\<close> is \<open>undefined\<close>.\<close>

record message =
  msg_id :: jsstring
  content :: jsstring
  type :: msg_type
  timestamp :: nat
  isStreaming :: "bool option"

definition streaming :: "message \<Rightarrow> bool" where
  "streaming m \<longleftrightarrow> isStreaming m = Some True"

text \<open>The three \<open>useState\<close> cells of \<open>ChatInterface\<close>.\<close>

record component =
  messages :: "message list"
  input :: jsstring
  isLoading :: bool

definition greeting :: jsstring where
  "greeting = js ([CHR 0xA1] @ ''Hola! Soy tu asistente de IA para la UTP. Puedo ayudarte con informaci''
     @ [CHR 0xF3] @ ''n sobre reglamentos, gu'' @ [CHR 0xED] @ ''as de estudiante y procedimientos acad''
     @ [CHR 0xE9] @ ''micos. '' @ [CHR 0xBF] @ ''En qu'' @ [CHR 0xE9] @ '' puedo ayudarte hoy?'')"

definition errorMessage :: jsstring where
  "errorMessage = js (''Lo siento, ocurri'' @ [CHR 0xF3]
     @ '' un error al procesar tu mensaje. Por favor, intenta de nuevo.'')"

text \<open>The initial value of \<open>messages\<close>; \<open>t0\<close> is the \<open>new Date()\<close> read at mount.\<close>

definition seed :: "nat \<Rightarrow> message" where
  "seed t0 = \<lparr>msg_id = js ''1'', content = greeting, type = Assistant, timestamp = t0,
     isStreaming = None\<rparr>"

definition initial_component :: "nat \<Rightarrow> component" where
  "initial_component t0 = \<lparr>messages = [seed t0], input = [], isLoading = False\<rparr>"

subsection \<open>The three updaters passed to \<open>setMessages\<close>\<close>

text \<open>Lines 89-95: \<open>prev.map(msg => msg.id === id ? {...msg, content: msg.content + chunk} : msg)\<close>.\<close>

definition apply_fragment :: "jsstring \<Rightarrow> jsstring \<Rightarrow> message list \<Rightarrow> message list" where
  "apply_fragment tid chunk prev =
     map (\<lambda>msg. if msg_id msg = tid then msg\<lparr>content := content msg @ chunk\<rparr> else msg) prev"

text \<open>Lines 99-103: mark streaming as complete.\<close>

definition mark_complete :: "jsstring \<Rightarrow> message list \<Rightarrow> message list" where
  "mark_complete tid prev =
     map (\<lambda>msg. if msg_id msg = tid then msg\<lparr>isStreaming := Some False\<rparr> else msg) prev"

text \<open>Lines 106-117: the updater of the \<open>catch\<close> block.\<close>

definition replace_with_error :: "jsstring \<Rightarrow> message list \<Rightarrow> message list" where
  "replace_with_error tid prev =
     map (\<lambda>msg. if msg_id msg = tid
                then msg\<lparr>content := errorMessage, isStreaming := Some False\<rparr> else msg) prev"

subsection \<open>The store operation \<open>appendFragment\<close> as the specification words it\<close>

text \<open>
  Written from the specification, for comparison with \<open>apply_fragment\<close>: find the
  message with the id; fail with \<open>NotFoundError\<close> if it is absent or not streaming;
  otherwise concatenate the fragment onto its content.
\<close>

datatype store_error = NotFoundError

fun spec_update :: "jsstring \<Rightarrow> jsstring \<Rightarrow> message list \<Rightarrow> message list" where
  "spec_update tid fragment [] = []"
| "spec_update tid fragment (m # ms) =
     (if msg_id m = tid then m\<lparr>content := content m @ fragment\<rparr> # ms
      else m # spec_update tid fragment ms)"

definition spec_appendFragment ::
  "jsstring \<Rightarrow> jsstring \<Rightarrow> message list \<Rightarrow> store_error + message list" where
  "spec_appendFragment tid fragment msgs =
     (case find (\<lambda>m. msg_id m = tid) msgs of
        None \<Rightarrow> Inl NotFoundError
      | Some m \<Rightarrow> if streaming m then Inr (spec_update tid fragment msgs)
                  else Inl NotFoundError)"

section \<open>The platform's streaming UTF-8 decoder\<close>

text \<open>
  \<open>TextDecoder\<close> is a built-in of the browser, like \<open>trim\<close> and \<open>toString\<close>; its code is
  not part of the repository.  \<open>new TextDecoder()\<close> is the UTF-8 decoder of the WHATWG
  Encoding Standard, not fatal (a malformed sequence gives U+FFFD, never an exception)
  and not ignoring the byte order mark.  The definitions follow the standard's handler
  step by step; the state below is what is kept across the calls
  \<open>decode(value, {stream: true})\<close>.
\<close>

record utf8_decoder =
  code_point :: nat
  bytes_seen :: nat
  bytes_needed :: nat
  lower_boundary :: nat
  upper_boundary :: nat

definition utf8_initial :: utf8_decoder where
  "utf8_initial = \<lparr>code_point = 0, bytes_seen = 0, bytes_needed = 0,
     lower_boundary = 0x80, upper_boundary = 0xBF\<rparr>"

text \<open>
  Step 3 of the handler (no sequence is open).  The result is the new state and the
  scalar values emitted; an error emits U+FFFD, the replacement error mode.
\<close>

definition utf8_lead :: "utf8_decoder \<Rightarrow> nat \<Rightarrow> utf8_decoder \<times> nat list" where
  "utf8_lead d b =
     (if b \<le> 0x7F then (d, [b])
      else if 0xC2 \<le> b \<and> b \<le> 0xDF then
        (d\<lparr>bytes_needed := 1, code_point := b AND 0x1F\<rparr>, [])
      else if 0xE0 \<le> b \<and> b \<le> 0xEF then
        (d\<lparr>lower_boundary := (if b = 0xE0 then 0xA0 else lower_boundary d),
           upper_boundary := (if b = 0xED then 0x9F else upper_boundary d),
           bytes_needed := 2, code_point := b AND 0xF\<rparr>, [])
      else if 0xF0 \<le> b \<and> b \<le> 0xF4 then
        (d\<lparr>lower_boundary := (if b = 0xF0 then 0x90 else lower_boundary d),
           upper_boundary := (if b = 0xF4 then 0x8F else upper_boundary d),
           bytes_needed := 3, code_point := b AND 0x7\<rparr>, [])
      else (d, [0xFFFD]))"

text \<open>
  The whole handler on one byte.  A byte outside the expected range ends the open
  sequence with an error and is read again in the initial state (step 4).
\<close>

definition utf8_handler :: "utf8_decoder \<Rightarrow> nat \<Rightarrow> utf8_decoder \<times> nat list" where
  "utf8_handler d b =
     (if bytes_needed d = 0 then utf8_lead d b
      else if \<not> (lower_boundary d \<le> b \<and> b \<le> upper_boundary d) then
        (let (d', out) = utf8_lead utf8_initial b in (d', 0xFFFD # out))
      else
        (let cp = push_bit 6 (code_point d) OR (b AND 0x3F);
             seen = bytes_seen d + 1
         in if seen \<noteq> bytes_needed d
            then (d\<lparr>lower_boundary := 0x80, upper_boundary := 0xBF,
                    code_point := cp, bytes_seen := seen\<rparr>, [])
            else (utf8_initial, [cp])))"

fun utf8_run :: "utf8_decoder \<Rightarrow> nat list \<Rightarrow> utf8_decoder \<times> nat list" where
  "utf8_run d [] = (d, [])"
| "utf8_run d (b # bs) =
     (let (d1, out1) = utf8_handler d b; (d2, out2) = utf8_run d1 bs in (d2, out1 @ out2))"

text \<open>A scalar value as UTF-16 code units.\<close>

definition utf16 :: "nat \<Rightarrow> jsstring" where
  "utf16 c = (if c < 0x10000 then [c]
              else [0xD800 + (c - 0x10000) div 0x400, 0xDC00 + (c - 0x10000) mod 0x400])"

text \<open>
  Serialising the decoder's output: the first scalar value ever emitted sets
  \<open>BOM seen\<close> and is dropped if it is U+FEFF.
\<close>

fun serialize :: "bool \<Rightarrow> nat list \<Rightarrow> bool \<times> jsstring" where
  "serialize seen [] = (seen, [])"
| "serialize seen (c # cs) =
     (if \<not> seen \<and> c = 0xFEFF then serialize True cs
      else (let (seen', out) = serialize True cs in (seen', utf16 c @ out)))"

record text_decoder =
  decoder :: utf8_decoder
  bom_seen :: bool
  do_not_flush :: bool

definition new_TextDecoder :: text_decoder where
  "new_TextDecoder = \<lparr>decoder = utf8_initial, bom_seen = False, do_not_flush = False\<rparr>"

text \<open>
  \<open>decoder.decode(value, {stream: true})\<close>: with \<open>stream\<close> set the end of the chunk is
  not an end of input, so an open sequence stays in the decoder's state.
\<close>

definition decode_stream :: "text_decoder \<Rightarrow> bytes \<Rightarrow> text_decoder \<times> jsstring" where
  "decode_stream td v =
     (let td1 = (if do_not_flush td then td
                 else td\<lparr>decoder := utf8_initial, bom_seen := False\<rparr>);
          (d', out) = utf8_run (decoder td1) (map unat v);
          (seen', chunk) = serialize (bom_seen td1) out
      in (td1\<lparr>decoder := d', bom_seen := seen', do_not_flush := True\<rparr>, chunk))"

section \<open>\<open>handleSubmit\<close> as a machine of synchronous segments\<close>

text \<open>
  \<open>handleSubmit\<close> is an async function: it runs synchronously up to \<open>await fetch(...)\<close>,
  and again after every \<open>await reader.read()\<close>.  A suspended call is a \<open>handler\<close>: the
  captured \<open>assistantMessage.id\<close> and the point where it waits.
\<close>

datatype phase = AwaitingFetch | AwaitingRead text_decoder | Finished

record handler =
  target :: jsstring
  phase :: phase

text \<open>
  The session: the component state, the calls of \<open>handleSubmit\<close> made so far, the
  \<open>pregunta\<close> of every request sent, and every component state written by a state
  setter, oldest first.
\<close>

record session =
  ui :: component
  handlers :: "handler list"
  requests :: "jsstring list"
  history :: "component list"

definition initial_session :: "nat \<Rightarrow> session" where
  "initial_session t0 = \<lparr>ui = initial_component t0, handlers = [], requests = [],
     history = [initial_component t0]\<rparr>"

definition commit :: "(component \<Rightarrow> component) \<Rightarrow> session \<Rightarrow> session" where
  "commit f \<sigma> = \<sigma>\<lparr>ui := f (ui \<sigma>), history := history \<sigma> @ [f (ui \<sigma>)]\<rparr>"

definition setMessages :: "(message list \<Rightarrow> message list) \<Rightarrow> session \<Rightarrow> session" where
  "setMessages f = commit (\<lambda>s. s\<lparr>messages := f (messages s)\<rparr>)"

definition setInput :: "jsstring \<Rightarrow> session \<Rightarrow> session" where
  "setInput v = commit (\<lambda>s. s\<lparr>input := v\<rparr>)"

definition setIsLoading :: "bool \<Rightarrow> session \<Rightarrow> session" where
  "setIsLoading b = commit (\<lambda>s. s\<lparr>isLoading := b\<rparr>)"

text \<open>The two messages built at lines 44-49 and 56-62.\<close>

definition userMessage :: "clock \<Rightarrow> jsstring \<Rightarrow> message" where
  "userMessage clk inp = \<lparr>msg_id = toString (now_user clk), content = trim inp,
     type = User, timestamp = date_user clk, isStreaming = None\<rparr>"

definition assistantMessage :: "clock \<Rightarrow> message" where
  "assistantMessage clk = \<lparr>msg_id = toString (now_assistant clk + 1), content = [],
     type = Assistant, timestamp = date_assistant clk, isStreaming = Some True\<rparr>"

text \<open>
  Lines 40-76: from the call to the first \<open>await\<close>.  \<open>input\<close> and \<open>isLoading\<close> are
  read from the closure of the render that created the handler; that render is taken
  to show the current state, since React commits the re-render caused by one event
  before it dispatches the next.  The request carries \<open>input.trim()\<close> of the same
  closure.  The call then waits for its fetch.
\<close>

definition handleSubmit :: "clock \<Rightarrow> session \<Rightarrow> session" where
  "handleSubmit clk \<sigma> =
     (let inp = input (ui \<sigma>) in
      if trim inp = [] \<or> isLoading (ui \<sigma>) then \<sigma>
      else
        (let \<sigma>1 = setMessages (\<lambda>prev. prev @ [userMessage clk inp]) \<sigma>;
             \<sigma>2 = setInput [] \<sigma>1;
             \<sigma>3 = setIsLoading True \<sigma>2;
             \<sigma>4 = setMessages (\<lambda>prev. prev @ [assistantMessage clk]) \<sigma>3
         in \<sigma>4\<lparr>requests := requests \<sigma>4 @ [trim inp],
               handlers := handlers \<sigma>4 @
                 [\<lparr>target = msg_id (assistantMessage clk), phase = AwaitingFetch\<rparr>]\<rparr>))"

text \<open>Lines 104-117 and 118-120.\<close>

definition catch_block :: "jsstring \<Rightarrow> session \<Rightarrow> session" where
  "catch_block tid = setMessages (replace_with_error tid)"

definition set_phase :: "nat \<Rightarrow> phase \<Rightarrow> session \<Rightarrow> session" where
  "set_phase i p \<sigma> = \<sigma>\<lparr>handlers := (handlers \<sigma>)[i := (handlers \<sigma> ! i)\<lparr>phase := p\<rparr>]\<rparr>"

definition finally_block :: "nat \<Rightarrow> session \<Rightarrow> session" where
  "finally_block i \<sigma> = set_phase i Finished (setIsLoading False \<sigma>)"

text \<open>
  What \<open>await fetch(...)\<close> gives: a rejection, or a response with its status and
  whether \<open>response.body\<close> is non-null.  What \<open>await reader.read()\<close> gives: a chunk,
  the end of the stream, or a rejection.
\<close>

datatype fetch_result = FetchRejected | FetchResolved nat bool

datatype read_result = ReadChunk bytes | ReadDone | ReadRejected

text \<open>Lines 78-84: after the response arrives.\<close>

definition resume_fetch :: "nat \<Rightarrow> fetch_result \<Rightarrow> session \<Rightarrow> session" where
  "resume_fetch i r \<sigma> =
     (if i < length (handlers \<sigma>) then
        (case phase (handlers \<sigma> ! i) of
           AwaitingFetch \<Rightarrow>
             (case r of
                FetchRejected \<Rightarrow> finally_block i (catch_block (target (handlers \<sigma> ! i)) \<sigma>)
              | FetchResolved status has_body \<Rightarrow>
                  if \<not> has_body
                  then finally_block i (catch_block (target (handlers \<sigma> ! i)) \<sigma>)
                  else set_phase i (AwaitingRead new_TextDecoder) \<sigma>)
         | _ \<Rightarrow> \<sigma>)
      else \<sigma>)"

text \<open>Lines 84-103: after a read settles.\<close>

definition resume_read :: "nat \<Rightarrow> read_result \<Rightarrow> session \<Rightarrow> session" where
  "resume_read i r \<sigma> =
     (if i < length (handlers \<sigma>) then
        (case phase (handlers \<sigma> ! i) of
           AwaitingRead td \<Rightarrow>
             (case r of
                ReadChunk v \<Rightarrow>
                  (let (td', chunk) = decode_stream td v
                   in set_phase i (AwaitingRead td')
                        (setMessages (apply_fragment (target (handlers \<sigma> ! i)) chunk) \<sigma>))
              | ReadDone \<Rightarrow>
                  finally_block i (setMessages (mark_complete (target (handlers \<sigma> ! i))) \<sigma>)
              | ReadRejected \<Rightarrow>
                  finally_block i (catch_block (target (handlers \<sigma> ! i)) \<sigma>))
         | _ \<Rightarrow> \<sigma>)
      else \<sigma>)"

text \<open>
  The events of a session: the user types (\<open>onChange\<close>), the form is submitted, the
  fetch of call \<open>i\<close> settles, a read of call \<open>i\<close> settles.
\<close>

datatype event =
    Typed jsstring
  | Submitted clock
  | Fetched nat fetch_result
  | Read nat read_result

fun step :: "event \<Rightarrow> session \<Rightarrow> session" where
  "step (Typed v) \<sigma> = setInput v \<sigma>"
| "step (Submitted clk) \<sigma> = handleSubmit clk \<sigma>"
| "step (Fetched i r) \<sigma> = resume_fetch i r \<sigma>"
| "step (Read i r) \<sigma> = resume_read i r \<sigma>"

definition exec :: "event list \<Rightarrow> session \<Rightarrow> session" where
  "exec evs \<sigma> = fold step evs \<sigma>"

text \<open>
  One call of \<open>handleSubmit\<close> that becomes call number \<open>k\<close>, followed by what its
  fetch and its reads give.
\<close>

definition exchange :: "nat \<Rightarrow> clock \<Rightarrow> fetch_result \<Rightarrow> read_result list \<Rightarrow> event list" where
  "exchange k clk r reads = Submitted clk # Fetched k r # map (Read k) reads"

section \<open>Notions used by the statements\<close>

text \<open>
  The fragments the loop of lines 83-96 decodes from a list of chunks, the decoder being
  carried from one iteration to the next, and the contents they build up.
\<close>

fun decode_chunks :: "text_decoder \<Rightarrow> bytes list \<Rightarrow> text_decoder \<times> jsstring list" where
  "decode_chunks td [] = (td, [])"
| "decode_chunks td (v # vs) =
     (let (td1, chunk) = decode_stream td v; (td2, chunks) = decode_chunks td1 vs
      in (td2, chunk # chunks))"

declare decode_chunks.simps(2) [simp del]

fun partials :: "jsstring \<Rightarrow> jsstring list \<Rightarrow> jsstring list" where
  "partials acc [] = []"
| "partials acc (f # fs) = (acc @ f) # partials (acc @ f) fs"

text \<open>
  Messages are only ever appended, so the placeholder appended by a call made in
  session \<open>\<sigma>\<close> stays at index \<open>length (messages (ui \<sigma>)) + 1\<close>.  \<open>placeholder\<close> reads it in
  a later session, \<open>placeholder_views\<close> lists it in every state written since \<open>\<sigma>\<close>.
\<close>

definition placeholder :: "session \<Rightarrow> session \<Rightarrow> message" where
  "placeholder \<sigma> \<sigma>' = messages (ui \<sigma>') ! Suc (length (messages (ui \<sigma>)))"

definition placeholder_views :: "session \<Rightarrow> session \<Rightarrow> message list" where
  "placeholder_views \<sigma> \<sigma>' =
     map (\<lambda>s. messages s ! Suc (length (messages (ui \<sigma>))))
       (filter (\<lambda>s. Suc (length (messages (ui \<sigma>))) < length (messages s))
          (drop (length (history \<sigma>)) (history \<sigma>')))"


subsection \<open>UTF-8 text\<close>

text \<open>
  Unicode scalar values, their UTF-8 encoding, and the removal of a leading byte order
  mark, which is what decoding a whole UTF-8 stream with \<open>TextDecoder\<close> does to U+FEFF
  at the very start.
\<close>

definition scalar_value :: "nat \<Rightarrow> bool" where
  "scalar_value c \<longleftrightarrow> c < 0xD800 \<or> (0xE000 \<le> c \<and> c \<le> 0x10FFFF)"

definition utf8_encode :: "nat \<Rightarrow> nat list" where
  "utf8_encode c =
     (if c < 0x80 then [c]
      else if c < 0x800 then [0xC0 + c div 0x40, 0x80 + c mod 0x40]
      else if c < 0x10000 then
        [0xE0 + c div 0x1000, 0x80 + c div 0x40 mod 0x40, 0x80 + c mod 0x40]
      else [0xF0 + c div 0x40000, 0x80 + c div 0x1000 mod 0x40,
            0x80 + c div 0x40 mod 0x40, 0x80 + c mod 0x40])"

definition strip_bom :: "nat list \<Rightarrow> nat list" where
  "strip_bom cps = (case cps of [] \<Rightarrow> [] | c # cs \<Rightarrow> if c = 0xFEFF then cs else c # cs)"

text \<open>
  \<open>emits_last d bs c\<close>: from state \<open>d\<close> the handler emits nothing on the bytes \<open>bs\<close> but
  the last, where it emits \<open>c\<close> and is back in the initial state.
\<close>

fun emits_last :: "utf8_decoder \<Rightarrow> nat list \<Rightarrow> nat \<Rightarrow> bool" where
  "emits_last d [] c = False"
| "emits_last d [b] c = (utf8_handler d b = (utf8_initial, [c]))"
| "emits_last d (b # b' # bs) c =
     (snd (utf8_handler d b) = [] \<and> emits_last (fst (utf8_handler d b)) (b' # bs) c)"

text \<open>A decoder that is new, or was last used with \<open>stream\<close> set.\<close>

definition ready :: "text_decoder \<Rightarrow> bool" where
  "ready td \<longleftrightarrow> do_not_flush td \<or> (decoder td = utf8_initial \<and> \<not> bom_seen td)"

subsection \<open>Invariants of a session\<close>

text \<open>
  A call is in flight until its \<open>finally\<close> block has run.  A written state is calm when at
  most one message streams and none does while the busy flag is off.  A session is
  single-flight when at most one call is in flight, the busy flag is on exactly while
  one is, every streaming message has the id captured by the call in flight, and every
  written state is calm.
\<close>

definition in_flight :: "handler \<Rightarrow> bool" where
  "in_flight h \<longleftrightarrow> phase h \<noteq> Finished"

definition calm :: "component \<Rightarrow> bool" where
  "calm s \<longleftrightarrow> length (filter streaming (messages s)) \<le> 1
     \<and> (\<not> isLoading s \<longrightarrow> filter streaming (messages s) = [])"

definition single_flight :: "session \<Rightarrow> bool" where
  "single_flight \<sigma> \<longleftrightarrow>
     (\<forall>i<length (handlers \<sigma>). \<forall>j<length (handlers \<sigma>).
        in_flight (handlers \<sigma> ! i) \<and> in_flight (handlers \<sigma> ! j) \<longrightarrow> i = j)
     \<and> (isLoading (ui \<sigma>) \<longleftrightarrow> (\<exists>i<length (handlers \<sigma>). in_flight (handlers \<sigma> ! i)))
     \<and> (\<forall>m\<in>set (messages (ui \<sigma>)). streaming m \<longrightarrow>
          (\<exists>i<length (handlers \<sigma>). in_flight (handlers \<sigma> ! i)
             \<and> target (handlers \<sigma> ! i) = msg_id m))
     \<and> length (filter streaming (messages (ui \<sigma>))) \<le> 1
     \<and> (\<forall>s\<in>set (history \<sigma>). calm s)"

text \<open>
  The exit paths of a call: \<open>exits k p e\<close> says that event \<open>e\<close> makes call \<open>k\<close>, waiting in
  phase \<open>p\<close>, leave the \<open>try\<close> statement.  The fetch rejects or gives no body (the throw
  of line 78), a read reports \<open>done\<close> (the \<open>break\<close> of line 85), or a read rejects.
\<close>

fun exits :: "nat \<Rightarrow> phase \<Rightarrow> event \<Rightarrow> bool" where
  "exits k AwaitingFetch (Fetched i FetchRejected) = (i = k)"
| "exits k AwaitingFetch (Fetched i (FetchResolved status has_body)) = (i = k \<and> \<not> has_body)"
| "exits k (AwaitingRead td) (Read i ReadDone) = (i = k)"
| "exits k (AwaitingRead td) (Read i ReadRejected) = (i = k)"
| "exits k p e = False"

text \<open>
  The hypothesis on \<open>Date.now()\<close> under which ids are distinct: in every submission the
  first reading is above every number used for an id so far (\<open>b\<close>), and the second
  reading is not before the first.
\<close>

fun clocks_increasing :: "nat \<Rightarrow> event list \<Rightarrow> bool" where
  "clocks_increasing b [] = True"
| "clocks_increasing b (Submitted clk # evs) =
     (b < now_user clk \<and> now_user clk \<le> now_assistant clk
      \<and> clocks_increasing (now_assistant clk + 1) evs)"
| "clocks_increasing b (e # evs) = clocks_increasing b evs"

text \<open>The ids of the conversation are the decimal strings of an increasing list of numbers.\<close>

definition ids_below :: "nat \<Rightarrow> session \<Rightarrow> bool" where
  "ids_below b \<sigma> \<longleftrightarrow>
     (\<exists>ks. map msg_id (messages (ui \<sigma>)) = map toString ks
        \<and> sorted_wrt (<) ks \<and> (\<forall>k\<in>set ks. k \<le> b))"

subsection \<open>A concrete session for examples\<close>

definition clock_300 :: clock where
  "clock_300 = \<lparr>now_user = 300, date_user = 300, now_assistant = 300, date_assistant = 300\<rparr>"

definition clock_100 :: clock where
  "clock_100 = \<lparr>now_user = 100, date_user = 100, now_assistant = 100, date_assistant = 100\<rparr>"

definition clock_101 :: clock where
  "clock_101 = \<lparr>now_user = 101, date_user = 101, now_assistant = 101, date_assistant = 101\<rparr>"

definition typed_hi :: session where
  "typed_hi = step (Typed (js ''hi'')) (initial_session 0)"

text \<open>A session whose only call reads the stream for an id that no message has.\<close>

definition stray_reader :: session where
  "stray_reader = \<lparr>ui = initial_component 0,
     handlers = [\<lparr>target = js ''2'', phase = AwaitingRead new_TextDecoder\<rparr>],
     requests = [], history = [initial_component 0]\<rparr>"

section \<open>Basic facts\<close>

lemma trim_empty_iff: "trim s = [] \<longleftrightarrow> (\<forall>c\<in>set s. is_white_space c)"
proof
  assume "trim s = []"
  then have a: "\<forall>c\<in>set (dropWhile is_white_space s). is_white_space c"
    by (simp add: trim_def dropWhile_eq_Nil_conv)
  have "dropWhile is_white_space s = []"
  proof (rule ccontr)
    assume n: "dropWhile is_white_space s \<noteq> []"
    then have "\<not> is_white_space (hd (dropWhile is_white_space s))"
      by (rule hd_dropWhile)
    moreover have "hd (dropWhile is_white_space s) \<in> set (dropWhile is_white_space s)"
      using n by simp
    ultimately show False using a by blast
  qed
  then show "\<forall>c\<in>set s. is_white_space c"
    by (simp add: dropWhile_eq_Nil_conv)
next
  assume "\<forall>c\<in>set s. is_white_space c"
  then have e: "dropWhile is_white_space s = []"
    by (simp add: dropWhile_eq_Nil_conv)
  show "trim s = []"
    unfolding trim_def e by simp
qed

lemma map_msg_id_apply_fragment: "map msg_id (apply_fragment tid f msgs) = map msg_id msgs"
  by (simp add: apply_fragment_def)

lemma apply_fragment_absent:
  "tid \<notin> msg_id ` set msgs \<Longrightarrow> apply_fragment tid f msgs = msgs"
  by (induction msgs) (auto simp: apply_fragment_def)

lemma exec_Nil [simp]: "exec [] \<sigma> = \<sigma>"
  by (simp add: exec_def)

lemma exec_Cons [simp]: "exec (e # evs) \<sigma> = exec evs (step e \<sigma>)"
  by (simp add: exec_def)

lemma exec_append [simp]: "exec (evs @ evs') \<sigma> = exec evs' (exec evs \<sigma>)"
  by (simp add: exec_def)

lemma apply_fragment_Nil [simp]: "apply_fragment tid [] msgs = msgs"
  by (induction msgs) (simp_all add: apply_fragment_def)

lemma apply_fragment_twice [simp]:
  "apply_fragment tid g (apply_fragment tid f msgs) = apply_fragment tid (f @ g) msgs"
  by (induction msgs) (simp_all add: apply_fragment_def)

lemma partials_shift: "partials (a @ b) fs = map ((@) a) (partials b fs)"
  by (induction fs arbitrary: b) simp_all

lemma fst_decode_chunks_Cons [simp]:
  "fst (decode_chunks td (v # vs)) = fst (decode_chunks (fst (decode_stream td v)) vs)"
  by (simp add: decode_chunks.simps(2) split: prod.splits)

lemma snd_decode_chunks_Cons [simp]:
  "snd (decode_chunks td (v # vs)) =
     snd (decode_stream td v) # snd (decode_chunks (fst (decode_stream td v)) vs)"
  by (simp add: decode_chunks.simps(2) split: prod.splits)

lemma phase_update_same: "phase h = p \<Longrightarrow> h\<lparr>phase := p\<rparr> = h"
  by (cases h) simp

lemma read_chunk_step:
  assumes "k < length (handlers \<sigma>)" "phase (handlers \<sigma> ! k) = AwaitingRead td"
  shows "resume_read k (ReadChunk v) \<sigma> =
     \<sigma>\<lparr>ui := (ui \<sigma>)\<lparr>messages := apply_fragment (target (handlers \<sigma> ! k))
                               (snd (decode_stream td v)) (messages (ui \<sigma>))\<rparr>,
       handlers := (handlers \<sigma>)[k := (handlers \<sigma> ! k)\<lparr>phase := AwaitingRead (fst (decode_stream td v))\<rparr>],
       history := history \<sigma> @ [(ui \<sigma>)\<lparr>messages := apply_fragment (target (handlers \<sigma> ! k))
                               (snd (decode_stream td v)) (messages (ui \<sigma>))\<rparr>]\<rparr>"
  using assms
  by (simp add: resume_read_def set_phase_def setMessages_def commit_def split: prod.splits)

lemma exec_chunks:
  assumes "k < length (handlers \<sigma>)" "phase (handlers \<sigma> ! k) = AwaitingRead td"
  shows "exec (map (\<lambda>v. Read k (ReadChunk v)) cs) \<sigma> =
     \<sigma>\<lparr>ui := (ui \<sigma>)\<lparr>messages := apply_fragment (target (handlers \<sigma> ! k))
                               (concat (snd (decode_chunks td cs))) (messages (ui \<sigma>))\<rparr>,
       handlers := (handlers \<sigma>)[k := (handlers \<sigma> ! k)\<lparr>phase := AwaitingRead (fst (decode_chunks td cs))\<rparr>],
       history := history \<sigma> @
         map (\<lambda>p. (ui \<sigma>)\<lparr>messages := apply_fragment (target (handlers \<sigma> ! k)) p (messages (ui \<sigma>))\<rparr>)
           (partials [] (snd (decode_chunks td cs)))\<rparr>"
  using assms
proof (induction cs arbitrary: \<sigma> td)
  case Nil
  then show ?case
    by (cases \<sigma>) (simp add: phase_update_same)
next
  case (Cons v vs)
  let ?\<sigma>1 = "resume_read k (ReadChunk v) \<sigma>"
  let ?td1 = "fst (decode_stream td v)"
  have s1: "?\<sigma>1 = \<sigma>\<lparr>ui := (ui \<sigma>)\<lparr>messages := apply_fragment (target (handlers \<sigma> ! k))
                               (snd (decode_stream td v)) (messages (ui \<sigma>))\<rparr>,
       handlers := (handlers \<sigma>)[k := (handlers \<sigma> ! k)\<lparr>phase := AwaitingRead ?td1\<rparr>],
       history := history \<sigma> @ [(ui \<sigma>)\<lparr>messages := apply_fragment (target (handlers \<sigma> ! k))
                               (snd (decode_stream td v)) (messages (ui \<sigma>))\<rparr>]\<rparr>"
    using Cons.prems by (rule read_chunk_step)
  have k1: "k < length (handlers ?\<sigma>1)" and p1: "phase (handlers ?\<sigma>1 ! k) = AwaitingRead ?td1"
    and t1: "target (handlers ?\<sigma>1 ! k) = target (handlers \<sigma> ! k)"
    using Cons.prems by (simp_all add: s1)
  have ps: "partials (snd (decode_stream td v)) fs = map ((@) (snd (decode_stream td v))) (partials [] fs)" for fs
    using partials_shift [of "snd (decode_stream td v)" "[]" fs] by simp
  have "exec (map (\<lambda>v. Read k (ReadChunk v)) (v # vs)) \<sigma> =
        exec (map (\<lambda>v. Read k (ReadChunk v)) vs) ?\<sigma>1"
    by simp
  also note Cons.IH [OF k1 p1]
  finally show ?case
    using Cons.prems(1)
    by (simp add: t1) (simp add: s1 ps comp_def)
qed

section \<open>One exchange in closed form\<close>

lemma handleSubmit_accepted:
  assumes "trim (input (ui \<sigma>)) \<noteq> []" "\<not> isLoading (ui \<sigma>)"
  shows "handleSubmit clk \<sigma> =
     \<lparr>ui = \<lparr>messages = messages (ui \<sigma>) @ [userMessage clk (input (ui \<sigma>)), assistantMessage clk],
             input = [], isLoading = True\<rparr>,
       handlers = handlers \<sigma> @ [\<lparr>target = msg_id (assistantMessage clk), phase = AwaitingFetch\<rparr>],
       requests = requests \<sigma> @ [trim (input (ui \<sigma>))],
       history = history \<sigma> @
         [\<lparr>messages = messages (ui \<sigma>) @ [userMessage clk (input (ui \<sigma>))],
            input = input (ui \<sigma>), isLoading = False\<rparr>,
          \<lparr>messages = messages (ui \<sigma>) @ [userMessage clk (input (ui \<sigma>))],
            input = [], isLoading = False\<rparr>,
          \<lparr>messages = messages (ui \<sigma>) @ [userMessage clk (input (ui \<sigma>))],
            input = [], isLoading = True\<rparr>,
          \<lparr>messages = messages (ui \<sigma>) @ [userMessage clk (input (ui \<sigma>)), assistantMessage clk],
            input = [], isLoading = True\<rparr>]\<rparr>"
  using assms
  by (cases \<sigma>, cases "ui \<sigma>")
     (simp add: handleSubmit_def setMessages_def setInput_def setIsLoading_def commit_def)

lemma fetch_body_step:
  assumes "k < length (handlers \<sigma>)" "phase (handlers \<sigma> ! k) = AwaitingFetch"
  shows "resume_fetch k (FetchResolved status True) \<sigma> =
     \<sigma>\<lparr>handlers := (handlers \<sigma>)[k := (handlers \<sigma> ! k)\<lparr>phase := AwaitingRead new_TextDecoder\<rparr>]\<rparr>"
  using assms by (simp add: resume_fetch_def set_phase_def)

text \<open>The catch block followed by the finally block, for call k.\<close>

lemma failure_form:
  "finally_block k (catch_block tid \<sigma>) =
     \<sigma>\<lparr>ui := (ui \<sigma>)\<lparr>messages := replace_with_error tid (messages (ui \<sigma>)), isLoading := False\<rparr>,
       handlers := (handlers \<sigma>)[k := (handlers \<sigma> ! k)\<lparr>phase := Finished\<rparr>],
       history := history \<sigma> @
         [(ui \<sigma>)\<lparr>messages := replace_with_error tid (messages (ui \<sigma>))\<rparr>,
          (ui \<sigma>)\<lparr>messages := replace_with_error tid (messages (ui \<sigma>)), isLoading := False\<rparr>]\<rparr>"
  by (simp add: finally_block_def catch_block_def set_phase_def setMessages_def setIsLoading_def
        commit_def)

lemma success_form:
  "finally_block k (setMessages (mark_complete tid) \<sigma>) =
     \<sigma>\<lparr>ui := (ui \<sigma>)\<lparr>messages := mark_complete tid (messages (ui \<sigma>)), isLoading := False\<rparr>,
       handlers := (handlers \<sigma>)[k := (handlers \<sigma> ! k)\<lparr>phase := Finished\<rparr>],
       history := history \<sigma> @
         [(ui \<sigma>)\<lparr>messages := mark_complete tid (messages (ui \<sigma>))\<rparr>,
          (ui \<sigma>)\<lparr>messages := mark_complete tid (messages (ui \<sigma>)), isLoading := False\<rparr>]\<rparr>"
  by (simp add: finally_block_def set_phase_def setMessages_def setIsLoading_def commit_def)

text \<open>The session after the call, a response with a body, and the chunks cs.\<close>

lemma exec_streaming:
  assumes "trim (input (ui \<sigma>)) \<noteq> []" "\<not> isLoading (ui \<sigma>)"
  shows "exec (exchange (length (handlers \<sigma>)) clk (FetchResolved status True) (map ReadChunk cs)) \<sigma> =
     \<lparr>ui = \<lparr>messages = apply_fragment (msg_id (assistantMessage clk))
                 (concat (snd (decode_chunks new_TextDecoder cs)))
                 (messages (ui \<sigma>) @ [userMessage clk (input (ui \<sigma>)), assistantMessage clk]),
             input = [], isLoading = True\<rparr>,
       handlers = handlers \<sigma> @ [\<lparr>target = msg_id (assistantMessage clk),
                     phase = AwaitingRead (fst (decode_chunks new_TextDecoder cs))\<rparr>],
       requests = requests \<sigma> @ [trim (input (ui \<sigma>))],
       history = history (handleSubmit clk \<sigma>) @
         map (\<lambda>p. \<lparr>messages = apply_fragment (msg_id (assistantMessage clk)) p
                 (messages (ui \<sigma>) @ [userMessage clk (input (ui \<sigma>)), assistantMessage clk]),
               input = [], isLoading = True\<rparr>)
           (partials [] (snd (decode_chunks new_TextDecoder cs)))\<rparr>"
proof -
  let ?k = "length (handlers \<sigma>)"
  let ?\<sigma>1 = "handleSubmit clk \<sigma>"
  let ?\<sigma>2 = "resume_fetch ?k (FetchResolved status True) ?\<sigma>1"
  note s1 = handleSubmit_accepted [OF assms, of clk]
  have k1: "?k < length (handlers ?\<sigma>1)" and p1: "phase (handlers ?\<sigma>1 ! ?k) = AwaitingFetch"
    by (simp_all add: s1)
  note s2 = fetch_body_step [OF k1 p1, of status]
  have k2: "?k < length (handlers ?\<sigma>2)"
    and p2: "phase (handlers ?\<sigma>2 ! ?k) = AwaitingRead new_TextDecoder"
    using k1 by (simp_all add: s2)
  have "exec (exchange ?k clk (FetchResolved status True) (map ReadChunk cs)) \<sigma> =
        exec (map (\<lambda>v. Read ?k (ReadChunk v)) cs) ?\<sigma>2"
    by (simp add: exchange_def comp_def)
  also note exec_chunks [OF k2 p2]
  finally show ?thesis
    by (simp add: s2) (simp add: s1)
qed
lemma exchange_snoc:
  "exec (exchange k clk r (reads @ [x])) \<sigma> = resume_read k x (exec (exchange k clk r reads) \<sigma>)"
  by (simp add: exchange_def)

lemma nth_apply_fragment_placeholder:
  "apply_fragment (msg_id a) f (ms @ [u, a]) ! Suc (length ms) = a\<lparr>content := content a @ f\<rparr>"
  by (simp add: apply_fragment_def nth_append)

lemma length_apply_fragment [simp]: "length (apply_fragment tid f ms) = length ms"
  by (simp add: apply_fragment_def)

lemma length_replace_with_error [simp]: "length (replace_with_error tid ms) = length ms"
  by (simp add: replace_with_error_def)

lemma length_mark_complete [simp]: "length (mark_complete tid ms) = length ms"
  by (simp add: mark_complete_def)

lemma nth_replace_with_error:
  "p < length ms \<Longrightarrow> msg_id (ms ! p) = tid \<Longrightarrow>
   replace_with_error tid ms ! p = (ms ! p)\<lparr>content := errorMessage, isStreaming := Some False\<rparr>"
  by (simp add: replace_with_error_def)

lemma nth_mark_complete:
  "p < length ms \<Longrightarrow> msg_id (ms ! p) = tid \<Longrightarrow>
   mark_complete tid ms ! p = (ms ! p)\<lparr>isStreaming := Some False\<rparr>"
  by (simp add: mark_complete_def)

lemma placeholder_streaming:
  assumes "trim (input (ui \<sigma>)) \<noteq> []" "\<not> isLoading (ui \<sigma>)"
  shows "placeholder \<sigma> (exec (exchange (length (handlers \<sigma>)) clk (FetchResolved status True)
            (map ReadChunk cs)) \<sigma>) =
         (assistantMessage clk)\<lparr>content := concat (snd (decode_chunks new_TextDecoder cs))\<rparr>"
  by (simp add: exec_streaming [OF assms] placeholder_def nth_apply_fragment_placeholder)
     (simp add: assistantMessage_def)

lemma prefix_partials: "y \<in> set (partials acc fs) \<Longrightarrow> prefix acc y"
proof (induction fs arbitrary: acc)
  case Nil
  then show ?case by simp
next
  case (Cons f fs)
  then show ?case
    by (auto dest!: Cons.IH intro: prefix_order.trans [of acc "acc @ f"])
qed

lemma partials_prefix_total: "y \<in> set (partials acc fs) \<Longrightarrow> prefix y (acc @ concat fs)"
proof (induction fs arbitrary: acc)
  case Nil
  then show ?case by simp
next
  case (Cons f fs)
  from Cons.prems have "y = acc @ f \<or> y \<in> set (partials (acc @ f) fs)" by simp
  then show ?case
  proof
    assume "y = acc @ f"
    then show ?thesis by simp
  next
    assume "y \<in> set (partials (acc @ f) fs)"
    from Cons.IH [OF this] show ?thesis by simp
  qed
qed

lemma sorted_partials: "sorted_wrt prefix (partials acc fs)"
  by (induction fs arbitrary: acc) (auto dest: prefix_partials)

lemma sorted_contents:
  "sorted_wrt prefix ([] # partials [] fs @ [concat fs, concat fs])"
  using partials_prefix_total [of _ "[]" fs]
  by (auto simp: sorted_wrt_append sorted_partials)

lemma exec_success:
  assumes "trim (input (ui \<sigma>)) \<noteq> []" "\<not> isLoading (ui \<sigma>)"
  shows "exec (exchange (length (handlers \<sigma>)) clk (FetchResolved status True)
            (map ReadChunk cs @ [ReadDone])) \<sigma> =
     \<lparr>ui = \<lparr>messages = mark_complete (msg_id (assistantMessage clk))
                 (apply_fragment (msg_id (assistantMessage clk))
                    (concat (snd (decode_chunks new_TextDecoder cs)))
                    (messages (ui \<sigma>) @ [userMessage clk (input (ui \<sigma>)), assistantMessage clk])),
             input = [], isLoading = False\<rparr>,
       handlers = handlers \<sigma> @ [\<lparr>target = msg_id (assistantMessage clk), phase = Finished\<rparr>],
       requests = requests \<sigma> @ [trim (input (ui \<sigma>))],
       history = history (handleSubmit clk \<sigma>) @
         map (\<lambda>p. \<lparr>messages = apply_fragment (msg_id (assistantMessage clk)) p
                 (messages (ui \<sigma>) @ [userMessage clk (input (ui \<sigma>)), assistantMessage clk]),
               input = [], isLoading = True\<rparr>)
           (partials [] (snd (decode_chunks new_TextDecoder cs))) @
         [\<lparr>messages = mark_complete (msg_id (assistantMessage clk))
                 (apply_fragment (msg_id (assistantMessage clk))
                    (concat (snd (decode_chunks new_TextDecoder cs)))
                    (messages (ui \<sigma>) @ [userMessage clk (input (ui \<sigma>)), assistantMessage clk])),
            input = [], isLoading = True\<rparr>,
          \<lparr>messages = mark_complete (msg_id (assistantMessage clk))
                 (apply_fragment (msg_id (assistantMessage clk))
                    (concat (snd (decode_chunks new_TextDecoder cs)))
                    (messages (ui \<sigma>) @ [userMessage clk (input (ui \<sigma>)), assistantMessage clk])),
            input = [], isLoading = False\<rparr>]\<rparr>"
  by (simp only: exchange_snoc)
     (simp add: resume_read_def exec_streaming [OF assms] success_form)

lemma placeholder_success:
  assumes "trim (input (ui \<sigma>)) \<noteq> []" "\<not> isLoading (ui \<sigma>)"
  shows "placeholder \<sigma> (exec (exchange (length (handlers \<sigma>)) clk (FetchResolved status True)
            (map ReadChunk cs @ [ReadDone])) \<sigma>) =
         (assistantMessage clk)\<lparr>content := concat (snd (decode_chunks new_TextDecoder cs)),
            isStreaming := Some False\<rparr>"
  by (simp add: exec_success [OF assms] placeholder_def nth_mark_complete
        nth_apply_fragment_placeholder)
     (simp add: assistantMessage_def)

lemma map_append_Nil_left: "map ((@) []) xs = xs"
  by (induction xs) simp_all

lemma views_success:
  assumes "trim (input (ui \<sigma>)) \<noteq> []" "\<not> isLoading (ui \<sigma>)"
  shows "map content (placeholder_views \<sigma>
           (exec (exchange (length (handlers \<sigma>)) clk (FetchResolved status True)
              (map ReadChunk cs @ [ReadDone])) \<sigma>)) =
         [] # partials [] (snd (decode_chunks new_TextDecoder cs))
           @ [concat (snd (decode_chunks new_TextDecoder cs)),
              concat (snd (decode_chunks new_TextDecoder cs))]"
  by (simp add: exec_success [OF assms] handleSubmit_accepted [OF assms] placeholder_views_def
        nth_mark_complete nth_apply_fragment_placeholder comp_def nth_append)
     (simp add: assistantMessage_def map_append_Nil_left)
lemmas decoder_defs = decode_stream_def new_TextDecoder_def utf8_handler_def utf8_lead_def
  utf8_initial_def utf16_def

lemma typed_hi_input: "input (ui typed_hi) = [104, 105]"
  by (simp add: typed_hi_def setInput_def commit_def js_def)

lemma typed_hi_guard: "trim (input (ui typed_hi)) \<noteq> []" "\<not> isLoading (ui typed_hi)"
  and typed_hi_handlers: "length (handlers typed_hi) = 0"
  and typed_hi_messages: "length (messages (ui typed_hi)) = 1"
  by (simp_all add: trim_empty_iff typed_hi_input is_white_space_def)
     (simp_all add: typed_hi_def setInput_def commit_def initial_session_def initial_component_def)

lemma decode_fail:
  "concat (snd (decode_chunks new_TextDecoder [[0x66, 0x61, 0x69, 0x6C]])) = js ''fail''"
  by (simp add: decoder_defs js_def)

lemma decode_No:
  "snd (decode_chunks new_TextDecoder [[0x4E, 0x6F], [0x21]]) = [js ''No'', js ''!'']"
  by (simp add: decoder_defs js_def)

lemma placeholder_fetch_failed:
  assumes "trim (input (ui \<sigma>)) \<noteq> []" "\<not> isLoading (ui \<sigma>)"
    and "r = FetchRejected \<or> r = FetchResolved status False"
  shows "placeholder \<sigma> (exec (exchange (length (handlers \<sigma>)) clk r []) \<sigma>) =
         (assistantMessage clk)\<lparr>content := errorMessage, isStreaming := Some False\<rparr>"
    and "\<not> isLoading (ui (exec (exchange (length (handlers \<sigma>)) clk r []) \<sigma>))"
  using assms(3)
  by (auto simp: exchange_def resume_fetch_def handleSubmit_accepted [OF assms(1,2)] failure_form
        placeholder_def nth_replace_with_error nth_append)

section \<open>Every reachable session is single-flight\<close>

lemma single_flightI:
  assumes "\<And>i j. i < length (handlers \<sigma>) \<Longrightarrow> j < length (handlers \<sigma>) \<Longrightarrow>
             in_flight (handlers \<sigma> ! i) \<Longrightarrow> in_flight (handlers \<sigma> ! j) \<Longrightarrow> i = j"
    and "isLoading (ui \<sigma>) \<longleftrightarrow> (\<exists>i<length (handlers \<sigma>). in_flight (handlers \<sigma> ! i))"
    and "\<And>m. m \<in> set (messages (ui \<sigma>)) \<Longrightarrow> streaming m \<Longrightarrow>
          \<exists>i<length (handlers \<sigma>). in_flight (handlers \<sigma> ! i) \<and> target (handlers \<sigma> ! i) = msg_id m"
    and "length (filter streaming (messages (ui \<sigma>))) \<le> 1"
    and "\<And>s. s \<in> set (history \<sigma>) \<Longrightarrow> calm s"
  shows "single_flight \<sigma>"
  unfolding single_flight_def using assms by blast

lemma single_flight_unique:
  "single_flight \<sigma> \<Longrightarrow> i < length (handlers \<sigma>) \<Longrightarrow> j < length (handlers \<sigma>) \<Longrightarrow>
   in_flight (handlers \<sigma> ! i) \<Longrightarrow> in_flight (handlers \<sigma> ! j) \<Longrightarrow> i = j"
  unfolding single_flight_def by blast

lemma single_flight_loading:
  "single_flight \<sigma> \<Longrightarrow>
   isLoading (ui \<sigma>) \<longleftrightarrow> (\<exists>i<length (handlers \<sigma>). in_flight (handlers \<sigma> ! i))"
  unfolding single_flight_def by blast

lemma single_flight_target:
  "single_flight \<sigma> \<Longrightarrow> m \<in> set (messages (ui \<sigma>)) \<Longrightarrow> streaming m \<Longrightarrow>
   \<exists>i<length (handlers \<sigma>). in_flight (handlers \<sigma> ! i) \<and> target (handlers \<sigma> ! i) = msg_id m"
  unfolding single_flight_def by blast

lemma single_flight_count:
  "single_flight \<sigma> \<Longrightarrow> length (filter streaming (messages (ui \<sigma>))) \<le> 1"
  unfolding single_flight_def by blast

lemma single_flight_history:
  "single_flight \<sigma> \<Longrightarrow> s \<in> set (history \<sigma>) \<Longrightarrow> calm s"
  unfolding single_flight_def by blast

lemma idle_no_streaming:
  assumes "single_flight \<sigma>" "\<not> isLoading (ui \<sigma>)"
  shows "filter streaming (messages (ui \<sigma>)) = []"
proof -
  have "\<not> streaming m" if "m \<in> set (messages (ui \<sigma>))" for m
    using single_flight_target [OF assms(1) that] single_flight_loading [OF assms(1)] assms(2)
    by blast
  then show ?thesis by (simp add: filter_empty_conv)
qed

lemma calm_same:
  assumes "single_flight \<sigma>" "messages s = messages (ui \<sigma>)" "isLoading s = isLoading (ui \<sigma>)"
  shows "calm s"
  using single_flight_count [OF assms(1)] idle_no_streaming [OF assms(1)] assms(2,3)
  by (simp add: calm_def)

lemma only_target_streams:
  assumes "single_flight \<sigma>" "i < length (handlers \<sigma>)" "in_flight (handlers \<sigma> ! i)"
    and "m \<in> set (messages (ui \<sigma>))" "streaming m"
  shows "msg_id m = target (handlers \<sigma> ! i)"
proof -
  from single_flight_target [OF assms(1,4,5)] obtain j where
    j: "j < length (handlers \<sigma>)" "in_flight (handlers \<sigma> ! j)" "target (handlers \<sigma> ! j) = msg_id m"
    by blast
  from single_flight_unique [OF assms(1) assms(2) j(1) assms(3) j(2)] j(3) show ?thesis by simp
qed

lemma length_streaming_apply_fragment [simp]:
  "length (filter streaming (apply_fragment tid f ms)) = length (filter streaming ms)"
  by (induction ms) (simp_all add: apply_fragment_def streaming_def)

lemma in_apply_fragment:
  "m' \<in> set (apply_fragment tid f ms) \<Longrightarrow>
   \<exists>m\<in>set ms. msg_id m' = msg_id m \<and> streaming m' = streaming m"
  by (auto simp: apply_fragment_def streaming_def)

lemma no_streaming_mark_complete:
  "(\<And>m. m \<in> set ms \<Longrightarrow> streaming m \<Longrightarrow> msg_id m = tid) \<Longrightarrow>
   filter streaming (mark_complete tid ms) = []"
  by (auto simp: filter_empty_conv mark_complete_def streaming_def)

lemma no_streaming_replace_with_error:
  "(\<And>m. m \<in> set ms \<Longrightarrow> streaming m \<Longrightarrow> msg_id m = tid) \<Longrightarrow>
   filter streaming (replace_with_error tid ms) = []"
  by (auto simp: filter_empty_conv replace_with_error_def streaming_def)

lemma single_flight_initial: "single_flight (initial_session t0)"
  by (simp add: single_flight_def initial_session_def initial_component_def seed_def
        streaming_def calm_def)

lemma single_flight_setInput:
  assumes "single_flight \<sigma>"
  shows "single_flight (setInput v \<sigma>)"
proof (rule single_flightI)
  show "length (filter streaming (messages (ui (setInput v \<sigma>)))) \<le> 1"
    using single_flight_count [OF assms] by (simp add: setInput_def commit_def)
  show "calm s" if "s \<in> set (history (setInput v \<sigma>))" for s
  proof -
    from that have "s \<in> set (history \<sigma>) \<or> s = (ui \<sigma>)\<lparr>input := v\<rparr>"
      by (auto simp: setInput_def commit_def)
    then show ?thesis
      using single_flight_history [OF assms] calm_same [OF assms, of "(ui \<sigma>)\<lparr>input := v\<rparr>"]
      by auto
  qed
qed (use assms in \<open>simp_all add: setInput_def commit_def single_flight_unique
       single_flight_loading single_flight_target\<close>)
lemma single_flight_handleSubmit:
  assumes sf: "single_flight \<sigma>"
  shows "single_flight (handleSubmit clk \<sigma>)"
proof (cases "trim (input (ui \<sigma>)) = [] \<or> isLoading (ui \<sigma>)")
  case True
  then show ?thesis using sf by (auto simp: handleSubmit_def)
next
  case False
  then have g: "trim (input (ui \<sigma>)) \<noteq> []" "\<not> isLoading (ui \<sigma>)" by simp_all
  note eq = handleSubmit_accepted [OF g, of clk]
  have idle: "\<not> in_flight (handlers \<sigma> ! i)" if "i < length (handlers \<sigma>)" for i
    using single_flight_loading [OF sf] g(2) that by blast
  have none: "filter streaming (messages (ui \<sigma>)) = []"
    by (rule idle_no_streaming [OF sf g(2)])
  have u: "\<not> streaming (userMessage clk (input (ui \<sigma>)))"
    by (simp add: userMessage_def streaming_def)
  have a: "streaming (assistantMessage clk)"
    by (simp add: assistantMessage_def streaming_def)
  let ?h = "\<lparr>target = msg_id (assistantMessage clk), phase = AwaitingFetch\<rparr>"
  have h: "in_flight ?h" by (simp add: in_flight_def)
  show ?thesis
  proof (rule single_flightI)
    fix i j
    assume "i < length (handlers (handleSubmit clk \<sigma>))" "j < length (handlers (handleSubmit clk \<sigma>))"
      "in_flight (handlers (handleSubmit clk \<sigma>) ! i)" "in_flight (handlers (handleSubmit clk \<sigma>) ! j)"
    then have "i = length (handlers \<sigma>)" "j = length (handlers \<sigma>)"
      using idle by (auto simp: eq nth_append split: if_splits)
    then show "i = j" by simp
  next
    have "length (handlers \<sigma>) < length (handlers (handleSubmit clk \<sigma>))"
      "in_flight (handlers (handleSubmit clk \<sigma>) ! length (handlers \<sigma>))"
      using h by (simp_all add: eq)
    then show "isLoading (ui (handleSubmit clk \<sigma>)) \<longleftrightarrow>
        (\<exists>i<length (handlers (handleSubmit clk \<sigma>)). in_flight (handlers (handleSubmit clk \<sigma>) ! i))"
      by (auto simp: eq)
  next
    fix m
    assume m: "m \<in> set (messages (ui (handleSubmit clk \<sigma>)))" "streaming m"
    from none have "\<not> streaming m'" if "m' \<in> set (messages (ui \<sigma>))" for m'
      using that by (simp add: filter_empty_conv)
    with m u have "m = assistantMessage clk"
      by (auto simp: eq)
    then have "length (handlers \<sigma>) < length (handlers (handleSubmit clk \<sigma>))
      \<and> in_flight (handlers (handleSubmit clk \<sigma>) ! length (handlers \<sigma>))
      \<and> target (handlers (handleSubmit clk \<sigma>) ! length (handlers \<sigma>)) = msg_id m"
      using h by (simp add: eq)
    then show "\<exists>i<length (handlers (handleSubmit clk \<sigma>)).
        in_flight (handlers (handleSubmit clk \<sigma>) ! i)
        \<and> target (handlers (handleSubmit clk \<sigma>) ! i) = msg_id m"
      by blast
  next
    show "length (filter streaming (messages (ui (handleSubmit clk \<sigma>)))) \<le> 1"
      using none u a by (simp add: eq)
  next
    fix s
    assume "s \<in> set (history (handleSubmit clk \<sigma>))"
    then consider "s \<in> set (history \<sigma>)"
      | "messages s = messages (ui \<sigma>) @ [userMessage clk (input (ui \<sigma>))]"
      | "messages s = messages (ui \<sigma>) @ [userMessage clk (input (ui \<sigma>)), assistantMessage clk]"
        "isLoading s"
      by (auto simp: eq)
    then show "calm s"
    proof cases
      case 1
      then show ?thesis by (rule single_flight_history [OF sf])
    next
      case 2
      then show ?thesis using none u by (simp add: calm_def)
    next
      case 3
      then show ?thesis using none u a by (simp add: calm_def)
    qed
  qed
qed

text \<open>A call that goes on waiting: its phase changes, the messages keep ids and streaming flags.\<close>

lemma single_flight_progress:
  assumes sf: "single_flight \<sigma>"
    and k: "k < length (handlers \<sigma>)" "in_flight (handlers \<sigma> ! k)"
    and p: "p \<noteq> Finished"
    and hs: "handlers \<sigma>' = (handlers \<sigma>)[k := (handlers \<sigma> ! k)\<lparr>phase := p\<rparr>]"
    and ui: "ui \<sigma>' = (ui \<sigma>)\<lparr>messages := apply_fragment tid f (messages (ui \<sigma>))\<rparr>"
    and hist: "set (history \<sigma>') \<subseteq> insert (ui \<sigma>') (set (history \<sigma>))"
  shows "single_flight \<sigma>'"
proof -
  have fl: "in_flight ((handlers \<sigma>') ! i) = in_flight (handlers \<sigma> ! i)"
    and tg: "target ((handlers \<sigma>') ! i) = target (handlers \<sigma> ! i)"
    if "i < length (handlers \<sigma>)" for i
    using that k p by (auto simp: hs nth_list_update in_flight_def)
  have len: "length (handlers \<sigma>') = length (handlers \<sigma>)" by (simp add: hs)
  have cnt: "length (filter streaming (messages (ui \<sigma>'))) \<le> 1"
    using single_flight_count [OF sf] by (simp add: ui)
  have load: "isLoading (ui \<sigma>')" "isLoading (ui \<sigma>)"
    using single_flight_loading [OF sf] k by (auto simp: ui)
  show ?thesis
  proof (rule single_flightI)
    fix i j
    assume "i < length (handlers \<sigma>')" "j < length (handlers \<sigma>')"
      "in_flight (handlers \<sigma>' ! i)" "in_flight (handlers \<sigma>' ! j)"
    then show "i = j"
      using single_flight_unique [OF sf, of i j] by (simp add: len fl)
  next
    show "isLoading (ui \<sigma>') \<longleftrightarrow> (\<exists>i<length (handlers \<sigma>'). in_flight (handlers \<sigma>' ! i))"
      using load k by (auto simp: len fl)
  next
    fix m'
    assume m': "m' \<in> set (messages (ui \<sigma>'))" "streaming m'"
    then obtain m where m: "m \<in> set (messages (ui \<sigma>))" "msg_id m' = msg_id m" "streaming m"
      using in_apply_fragment [of m' tid f "messages (ui \<sigma>)"] by (auto simp: ui)
    from single_flight_target [OF sf m(1,3)] show
      "\<exists>i<length (handlers \<sigma>'). in_flight (handlers \<sigma>' ! i) \<and> target (handlers \<sigma>' ! i) = msg_id m'"
      by (auto simp: len fl tg m(2))
  next
    show "length (filter streaming (messages (ui \<sigma>'))) \<le> 1" by (rule cnt)
  next
    fix s
    assume "s \<in> set (history \<sigma>')"
    with hist have "s = ui \<sigma>' \<or> s \<in> set (history \<sigma>)" by auto
    then show "calm s"
      using single_flight_history [OF sf] cnt load(1) by (auto simp: calm_def)
  qed
qed

text \<open>A call that ends: its placeholder stops streaming, then the busy flag is cleared.\<close>

lemma single_flight_finish:
  assumes sf: "single_flight \<sigma>"
    and k: "k < length (handlers \<sigma>)" "in_flight (handlers \<sigma> ! k)"
    and g: "g = mark_complete (target (handlers \<sigma> ! k)) \<or> g = replace_with_error (target (handlers \<sigma> ! k))"
    and eq: "\<sigma>' = \<sigma>\<lparr>ui := (ui \<sigma>)\<lparr>messages := g (messages (ui \<sigma>)), isLoading := False\<rparr>,
       handlers := (handlers \<sigma>)[k := (handlers \<sigma> ! k)\<lparr>phase := Finished\<rparr>],
       history := history \<sigma> @
         [(ui \<sigma>)\<lparr>messages := g (messages (ui \<sigma>))\<rparr>,
          (ui \<sigma>)\<lparr>messages := g (messages (ui \<sigma>)), isLoading := False\<rparr>]\<rparr>"
  shows "single_flight \<sigma>'"
proof -
  have none: "filter streaming (g (messages (ui \<sigma>))) = []"
    using g only_target_streams [OF sf k]
      no_streaming_mark_complete [of "messages (ui \<sigma>)" "target (handlers \<sigma> ! k)"]
      no_streaming_replace_with_error [of "messages (ui \<sigma>)" "target (handlers \<sigma> ! k)"]
    by blast
  have idle: "\<not> in_flight (handlers \<sigma>' ! i)" if "i < length (handlers \<sigma>)" for i
  proof (cases "i = k")
    case True
    then show ?thesis using that by (simp add: eq in_flight_def)
  next
    case False
    then show ?thesis
      using single_flight_unique [OF sf that k(1) _ k(2)] by (auto simp: eq)
  qed
  show ?thesis
  proof (rule single_flightI)
    fix i j
    assume "i < length (handlers \<sigma>')" "in_flight (handlers \<sigma>' ! i)"
    then show "i = j" using idle [of i] by (simp add: eq)
  next
    show "isLoading (ui \<sigma>') \<longleftrightarrow> (\<exists>i<length (handlers \<sigma>'). in_flight (handlers \<sigma>' ! i))"
      using idle by (auto simp: eq)
  next
    fix m
    assume "m \<in> set (messages (ui \<sigma>'))" "streaming m"
    then have False using none by (auto simp: eq filter_empty_conv)
    then show "\<exists>i<length (handlers \<sigma>'). in_flight (handlers \<sigma>' ! i) \<and> target (handlers \<sigma>' ! i) = msg_id m" ..
  next
    show "length (filter streaming (messages (ui \<sigma>'))) \<le> 1"
      using none by (simp add: eq)
  next
    fix s
    assume "s \<in> set (history \<sigma>')"
    then have "s \<in> set (history \<sigma>) \<or> messages s = g (messages (ui \<sigma>))"
      by (auto simp: eq)
    then show "calm s"
      using single_flight_history [OF sf] none by (auto simp: calm_def)
  qed
qed
lemma single_flight_resume_fetch:
  assumes sf: "single_flight \<sigma>"
  shows "single_flight (resume_fetch k r \<sigma>)"
proof (cases "k < length (handlers \<sigma>) \<and> phase (handlers \<sigma> ! k) = AwaitingFetch")
  case False
  then show ?thesis using sf by (auto simp: resume_fetch_def split: phase.splits)
next
  case True
  then have k: "k < length (handlers \<sigma>)" "in_flight (handlers \<sigma> ! k)"
    and ph: "phase (handlers \<sigma> ! k) = AwaitingFetch"
    by (simp_all add: in_flight_def)
  show ?thesis
  proof (cases "\<exists>status. r = FetchResolved status True")
    case True
    then obtain status where r: "r = FetchResolved status True" by blast
    show ?thesis
      unfolding r fetch_body_step [OF k(1) ph]
      by (rule single_flight_progress [OF sf k, where p = "AwaitingRead new_TextDecoder"
            and tid = "[]" and f = "[]"]) auto
  next
    case False
    then have "resume_fetch k r \<sigma> =
        finally_block k (catch_block (target (handlers \<sigma> ! k)) \<sigma>)"
      using k(1) ph by (cases r) (auto simp: resume_fetch_def)
    then show ?thesis
      using single_flight_finish [OF sf k, where g = "replace_with_error (target (handlers \<sigma> ! k))"]
      by (simp add: failure_form)
  qed
qed

lemma single_flight_resume_read:
  assumes sf: "single_flight \<sigma>"
  shows "single_flight (resume_read k r \<sigma>)"
proof (cases "k < length (handlers \<sigma>) \<and> (\<exists>td. phase (handlers \<sigma> ! k) = AwaitingRead td)")
  case False
  then show ?thesis using sf by (auto simp: resume_read_def split: phase.splits)
next
  case True
  then obtain td where k: "k < length (handlers \<sigma>)" "in_flight (handlers \<sigma> ! k)"
    and ph: "phase (handlers \<sigma> ! k) = AwaitingRead td"
    by (auto simp: in_flight_def)
  show ?thesis
  proof (cases r)
    case (ReadChunk v)
    show ?thesis
      unfolding ReadChunk read_chunk_step [OF k(1) ph]
      by (rule single_flight_progress [OF sf k,
            where p = "AwaitingRead (fst (decode_stream td v))"
              and tid = "target (handlers \<sigma> ! k)" and f = "snd (decode_stream td v)"])
        simp_all
  next
    case ReadDone
    then have "resume_read k r \<sigma> =
        finally_block k (setMessages (mark_complete (target (handlers \<sigma> ! k))) \<sigma>)"
      using k(1) ph by (simp add: resume_read_def)
    then show ?thesis
      using single_flight_finish [OF sf k, where g = "mark_complete (target (handlers \<sigma> ! k))"]
      by (simp add: success_form)
  next
    case ReadRejected
    then have "resume_read k r \<sigma> =
        finally_block k (catch_block (target (handlers \<sigma> ! k)) \<sigma>)"
      using k(1) ph by (simp add: resume_read_def)
    then show ?thesis
      using single_flight_finish [OF sf k, where g = "replace_with_error (target (handlers \<sigma> ! k))"]
      by (simp add: failure_form)
  qed
qed

lemma single_flight_step: "single_flight \<sigma> \<Longrightarrow> single_flight (step e \<sigma>)"
  by (cases e)
     (simp_all add: single_flight_setInput single_flight_handleSubmit single_flight_resume_fetch
        single_flight_resume_read)

lemma single_flight_exec: "single_flight \<sigma> \<Longrightarrow> single_flight (exec evs \<sigma>)"
  by (induction evs arbitrary: \<sigma>) (simp_all add: single_flight_step)

lemma single_flight_reachable: "single_flight (exec evs (initial_session t0))"
  by (rule single_flight_exec [OF single_flight_initial])


text \<open>The busy flag at the start and at every exit of a call.\<close>

lemma exits_in_flight: "exits k p e \<Longrightarrow> p \<noteq> Finished"
  by (cases p) simp_all

lemma exit_step_form:
  assumes k: "k < length (handlers \<sigma>)" and e: "exits k (phase (handlers \<sigma> ! k)) e"
  obtains g where
    "g = mark_complete (target (handlers \<sigma> ! k)) \<or> g = replace_with_error (target (handlers \<sigma> ! k))"
    "step e \<sigma> = \<sigma>\<lparr>ui := (ui \<sigma>)\<lparr>messages := g (messages (ui \<sigma>)), isLoading := False\<rparr>,
       handlers := (handlers \<sigma>)[k := (handlers \<sigma> ! k)\<lparr>phase := Finished\<rparr>],
       history := history \<sigma> @
         [(ui \<sigma>)\<lparr>messages := g (messages (ui \<sigma>))\<rparr>,
          (ui \<sigma>)\<lparr>messages := g (messages (ui \<sigma>)), isLoading := False\<rparr>]\<rparr>"
proof -
  from e consider
      (fetch_rejected) "phase (handlers \<sigma> ! k) = AwaitingFetch" "e = Fetched k FetchRejected"
    | (no_body) status where "phase (handlers \<sigma> ! k) = AwaitingFetch"
        "e = Fetched k (FetchResolved status False)"
    | (stream_end) td where "phase (handlers \<sigma> ! k) = AwaitingRead td" "e = Read k ReadDone"
    | (read_rejected) td where "phase (handlers \<sigma> ! k) = AwaitingRead td" "e = Read k ReadRejected"
    by (elim exits.elims) auto
  then show ?thesis
  proof cases
    case fetch_rejected
    then have "step e \<sigma> = finally_block k (catch_block (target (handlers \<sigma> ! k)) \<sigma>)"
      using k by (simp add: resume_fetch_def)
    then show ?thesis
      using that [of "replace_with_error (target (handlers \<sigma> ! k))"] by (simp add: failure_form)
  next
    case no_body
    then have "step e \<sigma> = finally_block k (catch_block (target (handlers \<sigma> ! k)) \<sigma>)"
      using k by (simp add: resume_fetch_def)
    then show ?thesis
      using that [of "replace_with_error (target (handlers \<sigma> ! k))"] by (simp add: failure_form)
  next
    case stream_end
    then have "step e \<sigma> =
        finally_block k (setMessages (mark_complete (target (handlers \<sigma> ! k))) \<sigma>)"
      using k by (simp add: resume_read_def)
    then show ?thesis
      using that [of "mark_complete (target (handlers \<sigma> ! k))"] by (simp add: success_form)
  next
    case read_rejected
    then have "step e \<sigma> = finally_block k (catch_block (target (handlers \<sigma> ! k)) \<sigma>)"
      using k by (simp add: resume_read_def)
    then show ?thesis
      using that [of "replace_with_error (target (handlers \<sigma> ! k))"] by (simp add: failure_form)
  qed
qed

lemma exit_clears_flag:
  assumes sf: "single_flight \<sigma>"
    and k: "k < length (handlers \<sigma>)" and e: "exits k (phase (handlers \<sigma> ! k)) e"
  shows "\<not> isLoading (ui (step e \<sigma>))"
    and "\<forall>m\<in>set (messages (ui (step e \<sigma>))). \<not> streaming m"
    and "phase (handlers (step e \<sigma>) ! k) = Finished"
    and "length (history (step e \<sigma>)) = length (history \<sigma>) + 2"
    and "isLoading (history (step e \<sigma>) ! length (history \<sigma>))"
    and "\<forall>m\<in>set (messages (history (step e \<sigma>) ! length (history \<sigma>))). \<not> streaming m"
    and "last (history (step e \<sigma>)) = ui (step e \<sigma>)"
proof -
  have fl: "in_flight (handlers \<sigma> ! k)"
    using exits_in_flight [OF e] by (simp add: in_flight_def)
  from exit_step_form [OF k e] obtain g where
    g: "g = mark_complete (target (handlers \<sigma> ! k)) \<or> g = replace_with_error (target (handlers \<sigma> ! k))"
    and eq: "step e \<sigma> = \<sigma>\<lparr>ui := (ui \<sigma>)\<lparr>messages := g (messages (ui \<sigma>)), isLoading := False\<rparr>,
       handlers := (handlers \<sigma>)[k := (handlers \<sigma> ! k)\<lparr>phase := Finished\<rparr>],
       history := history \<sigma> @
         [(ui \<sigma>)\<lparr>messages := g (messages (ui \<sigma>))\<rparr>,
          (ui \<sigma>)\<lparr>messages := g (messages (ui \<sigma>)), isLoading := False\<rparr>]\<rparr>"
    by blast
  have none: "filter streaming (g (messages (ui \<sigma>))) = []"
    using g only_target_streams [OF sf k fl]
      no_streaming_mark_complete [of "messages (ui \<sigma>)" "target (handlers \<sigma> ! k)"]
      no_streaming_replace_with_error [of "messages (ui \<sigma>)" "target (handlers \<sigma> ! k)"]
    by blast
  have load: "isLoading (ui \<sigma>)"
    using single_flight_loading [OF sf] k fl by blast
  show "\<not> isLoading (ui (step e \<sigma>))" by (simp add: eq)
  show "\<forall>m\<in>set (messages (ui (step e \<sigma>))). \<not> streaming m"
    using none by (simp add: eq filter_empty_conv)
  show "phase (handlers (step e \<sigma>) ! k) = Finished"
    using k by (simp add: eq)
  show "length (history (step e \<sigma>)) = length (history \<sigma>) + 2" by (simp add: eq)
  show "isLoading (history (step e \<sigma>) ! length (history \<sigma>))"
    using load by (simp add: eq nth_append)
  show "\<forall>m\<in>set (messages (history (step e \<sigma>) ! length (history \<sigma>))). \<not> streaming m"
    using none by (simp add: eq nth_append filter_empty_conv)
  show "last (history (step e \<sigma>)) = ui (step e \<sigma>)" by (simp add: eq)
qed

lemma accepted_sets_flag:
  assumes "trim (input (ui \<sigma>)) \<noteq> []" "\<not> isLoading (ui \<sigma>)"
  shows "isLoading (ui (step (Submitted clk) \<sigma>))"
    and "phase (handlers (step (Submitted clk) \<sigma>) ! length (handlers \<sigma>)) = AwaitingFetch"
  by (simp_all add: handleSubmit_accepted [OF assms])

lemma handlers_defs:
  "handlers (setMessages f \<sigma>) = handlers \<sigma>"
  "handlers (setInput v \<sigma>) = handlers \<sigma>"
  "handlers (setIsLoading b \<sigma>) = handlers \<sigma>"
  "handlers (catch_block tid \<sigma>) = handlers \<sigma>"
  "handlers (set_phase i p \<sigma>) = (handlers \<sigma>)[i := (handlers \<sigma> ! i)\<lparr>phase := p\<rparr>]"
  "handlers (finally_block i \<sigma>) = (handlers \<sigma>)[i := (handlers \<sigma> ! i)\<lparr>phase := Finished\<rparr>]"
  by (simp_all add: setMessages_def setInput_def setIsLoading_def catch_block_def set_phase_def
        finally_block_def commit_def)

lemma finish_only_by_exit:
  assumes k: "k < length (handlers \<sigma>)" and p: "phase (handlers \<sigma> ! k) \<noteq> Finished"
    and f: "phase (handlers (step e \<sigma>) ! k) = Finished"
  shows "exits k (phase (handlers \<sigma> ! k)) e"
proof (cases e)
  case (Typed v)
  with p f show ?thesis by (simp add: handlers_defs)
next
  case (Submitted clk)
  have "handlers (handleSubmit clk \<sigma>) ! k = handlers \<sigma> ! k"
    using k by (simp add: handleSubmit_def Let_def handlers_defs nth_append)
  with p f Submitted show ?thesis by simp
next
  case (Fetched i r)
  show ?thesis
  proof (cases "i = k")
    case False
    then have "handlers (resume_fetch i r \<sigma>) ! k = handlers \<sigma> ! k"
      by (simp add: resume_fetch_def handlers_defs split: phase.splits fetch_result.splits)
    with p f Fetched show ?thesis by simp
  next
    case True
    with p f k Fetched show ?thesis
      by (cases "phase (handlers \<sigma> ! k)"; cases r)
         (auto simp: resume_fetch_def handlers_defs split: if_splits)
  qed
next
  case (Read i r)
  show ?thesis
  proof (cases "i = k")
    case False
    then have "handlers (resume_read i r \<sigma>) ! k = handlers \<sigma> ! k"
      by (simp add: resume_read_def handlers_defs
            split: phase.splits read_result.splits prod.splits)
    with p f Read show ?thesis by simp
  next
    case True
    with p f k Read show ?thesis
      by (cases "phase (handlers \<sigma> ! k)"; cases r)
         (auto simp: resume_read_def handlers_defs split: if_splits prod.splits)
  qed
qed

section \<open>Message ids\<close>

lemma toString_not_Nil: "toString n \<noteq> []"
  by (subst toString.simps) simp

lemma toString_inj: "toString m = toString n \<Longrightarrow> m = n"
proof (induction m arbitrary: n rule: toString.induct)
  case (1 m)
  show ?case
  proof (cases "m < 10")
    case True
    then have m: "toString m = [48 + m]" by (subst toString.simps) simp
    show ?thesis
    proof (cases "n < 10")
      case True
      then have "toString n = [48 + n]" by (subst toString.simps) simp
      with m "1.prems" show ?thesis by simp
    next
      case False
      then have "toString n = toString (n div 10) @ [48 + n mod 10]"
        by (subst toString.simps) simp
      with m "1.prems" toString_not_Nil [of "n div 10"] show ?thesis
        by (cases "toString (n div 10)") simp_all
    qed
  next
    case False
    then have m: "toString m = toString (m div 10) @ [48 + m mod 10]"
      by (subst toString.simps) simp
    show ?thesis
    proof (cases "n < 10")
      case True
      then have "toString n = [48 + n]" by (subst toString.simps) simp
      with m "1.prems" toString_not_Nil [of "m div 10"] show ?thesis
        by (cases "toString (m div 10)") simp_all
    next
      case n: False
      then have "toString n = toString (n div 10) @ [48 + n mod 10]"
        by (subst toString.simps) simp
      with m "1.prems" have "toString (m div 10) = toString (n div 10)" "m mod 10 = n mod 10"
        by simp_all
      with "1.IH" [OF False] have "m div 10 = n div 10" "m mod 10 = n mod 10" by simp_all
      then show ?thesis by (metis div_mult_mod_eq)
    qed
  qed
qed

lemma seed_id: "msg_id (seed t0) = toString 1"
  by (simp add: seed_def js_def toString.simps)

lemma map_msg_id_mark_complete [simp]: "map msg_id (mark_complete tid ms) = map msg_id ms"
  by (simp add: mark_complete_def)

lemma map_msg_id_replace_with_error [simp]:
  "map msg_id (replace_with_error tid ms) = map msg_id ms"
  by (simp add: replace_with_error_def)

lemma ids_resume_fetch [simp]:
  "map msg_id (messages (ui (resume_fetch k r \<sigma>))) = map msg_id (messages (ui \<sigma>))"
  by (simp add: resume_fetch_def failure_form set_phase_def
        split: phase.splits fetch_result.splits)

lemma ids_resume_read [simp]:
  "map msg_id (messages (ui (resume_read k r \<sigma>))) = map msg_id (messages (ui \<sigma>))"
  by (simp add: resume_read_def catch_block_def finally_block_def setIsLoading_def set_phase_def
        setMessages_def commit_def map_msg_id_apply_fragment
        split: phase.splits read_result.splits prod.splits)

lemma ids_setInput [simp]:
  "map msg_id (messages (ui (setInput v \<sigma>))) = map msg_id (messages (ui \<sigma>))"
  by (simp add: setInput_def commit_def)

lemma ids_handleSubmit:
  "map msg_id (messages (ui (handleSubmit clk \<sigma>))) =
     (if trim (input (ui \<sigma>)) = [] \<or> isLoading (ui \<sigma>) then map msg_id (messages (ui \<sigma>))
      else map msg_id (messages (ui \<sigma>)) @ [toString (now_user clk), toString (now_assistant clk + 1)])"
proof (cases "trim (input (ui \<sigma>)) = [] \<or> isLoading (ui \<sigma>)")
  case True
  then show ?thesis by (auto simp: handleSubmit_def)
next
  case False
  then have g: "trim (input (ui \<sigma>)) \<noteq> []" "\<not> isLoading (ui \<sigma>)" by simp_all
  show ?thesis
    using False by (simp add: handleSubmit_accepted [OF g] userMessage_def assistantMessage_def)
qed

lemma ids_below_mono: "ids_below b \<sigma> \<Longrightarrow> b \<le> c \<Longrightarrow> ids_below c \<sigma>"
  unfolding ids_below_def by (meson le_trans)

lemma ids_below_exec:
  assumes "ids_below b \<sigma>" "clocks_increasing b evs"
  shows "\<exists>c. ids_below c (exec evs \<sigma>)"
  using assms
proof (induction evs arbitrary: b \<sigma>)
  case Nil
  then show ?case by auto
next
  case (Cons e evs)
  show ?case
  proof (cases e)
    case (Typed v)
    with Cons.prems have "ids_below b (step e \<sigma>)" "clocks_increasing b evs"
      by (simp_all add: ids_below_def)
    from Cons.IH [OF this] show ?thesis by simp
  next
    case (Fetched k r)
    with Cons.prems have "ids_below b (step e \<sigma>)" "clocks_increasing b evs"
      by (simp_all add: ids_below_def)
    from Cons.IH [OF this] show ?thesis by simp
  next
    case (Read k r)
    with Cons.prems have "ids_below b (step e \<sigma>)" "clocks_increasing b evs"
      by (simp_all add: ids_below_def)
    from Cons.IH [OF this] show ?thesis by simp
  next
    case (Submitted clk)
    with Cons.prems have c: "b < now_user clk" "now_user clk \<le> now_assistant clk"
      "clocks_increasing (now_assistant clk + 1) evs"
      by simp_all
    from Cons.prems(1) obtain ks where ks: "map msg_id (messages (ui \<sigma>)) = map toString ks"
      "sorted_wrt (<) ks" "\<forall>k\<in>set ks. k \<le> b"
      unfolding ids_below_def by blast
    have "ids_below (now_assistant clk + 1) (step e \<sigma>)"
    proof (cases "trim (input (ui \<sigma>)) = [] \<or> isLoading (ui \<sigma>)")
      case True
      then have "step e \<sigma> = \<sigma>" by (auto simp: Submitted handleSubmit_def)
      then show ?thesis using ids_below_mono [OF Cons.prems(1)] c by simp
    next
      case False
      then have "map msg_id (messages (ui (step e \<sigma>))) =
          map toString (ks @ [now_user clk, now_assistant clk + 1])"
        by (simp add: Submitted ids_handleSubmit ks(1))
      moreover have "sorted_wrt (<) (ks @ [now_user clk, now_assistant clk + 1])"
        using ks(2,3) c by (auto simp: sorted_wrt_append)
      moreover have "\<forall>k\<in>set (ks @ [now_user clk, now_assistant clk + 1]). k \<le> now_assistant clk + 1"
        using ks(3) c by auto
      ultimately show ?thesis unfolding ids_below_def by blast
    qed
    from Cons.IH [OF this c(3)] show ?thesis by simp
  qed
qed

lemma ids_below_initial: "ids_below 1 (initial_session t0)"
  unfolding ids_below_def
  by (rule exI [of _ "[1]"]) (simp add: initial_session_def initial_component_def seed_id)

lemma ids_below_distinct: "ids_below b \<sigma> \<Longrightarrow> distinct (map msg_id (messages (ui \<sigma>)))"
proof -
  assume "ids_below b \<sigma>"
  then obtain ks where ks: "map msg_id (messages (ui \<sigma>)) = map toString ks" "sorted_wrt (<) ks"
    unfolding ids_below_def by blast
  from ks(2) have "distinct ks" by (simp add: strict_sorted_iff)
  then have "distinct (map toString ks)"
    by (simp add: distinct_map inj_on_def) (use toString_inj in blast)
  with ks(1) show ?thesis by simp
qed


section \<open>Facts about the example session\<close>

lemma typed_hi_ids: "map msg_id (messages (ui typed_hi)) = [toString 1]"
  by (simp add: typed_hi_def initial_session_def initial_component_def seed_id)

lemma typed_hi_exec: "exec (Typed (js ''hi'') # evs) (initial_session 0) = exec evs typed_hi"
  by (simp add: typed_hi_def)

lemma input_setInput [simp]: "input (ui (setInput v \<sigma>)) = v"
  and isLoading_setInput [simp]: "isLoading (ui (setInput v \<sigma>)) = isLoading (ui \<sigma>)"
  by (simp_all add: setInput_def commit_def)

lemma js_hi_not_blank: "trim (js ''hi'') \<noteq> []"
  by (simp add: trim_empty_iff js_def is_white_space_def)

text \<open>After a rejected fetch: ids and busy flag.\<close>

lemma rejected_exchange:
  "map msg_id (messages (ui (exec (exchange 0 clock_100 FetchRejected []) typed_hi))) =
     [toString 1, toString 100, toString 101]"
  "\<not> isLoading (ui (exec (exchange 0 clock_100 FetchRejected []) typed_hi))"
  using placeholder_fetch_failed(2) [OF typed_hi_guard, of FetchRejected 0 clock_100]
  by (simp_all add: typed_hi_handlers)
     (simp add: exchange_def ids_handleSubmit typed_hi_guard typed_hi_ids clock_100_def)

text \<open>A session in the middle of a stream.\<close>

lemma mid_stream:
  "ui (exec (exchange 0 clock_100 (FetchResolved 200 True) [ReadChunk [0x4E, 0x6F]]) typed_hi)
     \<in> set (history (exec (exchange 0 clock_100 (FetchResolved 200 True) [ReadChunk [0x4E, 0x6F]]) typed_hi))"
  "placeholder typed_hi (exec (exchange 0 clock_100 (FetchResolved 200 True) [ReadChunk [0x4E, 0x6F]]) typed_hi)
     \<in> set (messages (ui (exec (exchange 0 clock_100 (FetchResolved 200 True) [ReadChunk [0x4E, 0x6F]]) typed_hi)))"
  "streaming (placeholder typed_hi (exec (exchange 0 clock_100 (FetchResolved 200 True) [ReadChunk [0x4E, 0x6F]]) typed_hi))"
proof -
  note e = exec_streaming [OF typed_hi_guard, of clock_100 200 "[[0x4E, 0x6F]]",
      unfolded typed_hi_handlers list.map]
  show "ui (exec (exchange 0 clock_100 (FetchResolved 200 True) [ReadChunk [0x4E, 0x6F]]) typed_hi)
     \<in> set (history (exec (exchange 0 clock_100 (FetchResolved 200 True) [ReadChunk [0x4E, 0x6F]]) typed_hi))"
    by (simp add: e)
  show "placeholder typed_hi (exec (exchange 0 clock_100 (FetchResolved 200 True) [ReadChunk [0x4E, 0x6F]]) typed_hi)
     \<in> set (messages (ui (exec (exchange 0 clock_100 (FetchResolved 200 True) [ReadChunk [0x4E, 0x6F]]) typed_hi)))"
    unfolding placeholder_def by (rule nth_mem) (simp add: e)
  show "streaming (placeholder typed_hi (exec (exchange 0 clock_100 (FetchResolved 200 True) [ReadChunk [0x4E, 0x6F]]) typed_hi))"
    using placeholder_streaming [OF typed_hi_guard, of clock_100 200 "[[0x4E, 0x6F]]"]
    by (simp add: typed_hi_handlers streaming_def assistantMessage_def)
qed

lemma typed_hi_alone: "exec [Typed (js ''hi'')] (initial_session 0) = typed_hi"
  by (simp add: typed_hi_def)

lemma mid_stream_call:
  "0 < length (handlers (exec (exchange 0 clock_100 (FetchResolved 200 True)
      [ReadChunk [0x4E, 0x6F]]) typed_hi))"
  "phase (handlers (exec (exchange 0 clock_100 (FetchResolved 200 True)
      [ReadChunk [0x4E, 0x6F]]) typed_hi) ! 0) =
   AwaitingRead (fst (decode_chunks new_TextDecoder [[0x4E, 0x6F]]))"
proof -
  have h: "handlers typed_hi = []"
    using typed_hi_handlers by simp
  note e = exec_streaming [OF typed_hi_guard, of clock_100 200 "[[0x4E, 0x6F]]",
      unfolded typed_hi_handlers list.map]
  show "0 < length (handlers (exec (exchange 0 clock_100 (FetchResolved 200 True)
      [ReadChunk [0x4E, 0x6F]]) typed_hi))"
    by (simp add: e)
  show "phase (handlers (exec (exchange 0 clock_100 (FetchResolved 200 True)
      [ReadChunk [0x4E, 0x6F]]) typed_hi) ! 0) =
   AwaitingRead (fst (decode_chunks new_TextDecoder [[0x4E, 0x6F]]))"
    by (simp add: e h)
qed

section \<open>The decoder on UTF-8 text\<close>

lemma and_mask_nat:
  "(b::nat) AND 0x1F = b mod 32" "(b::nat) AND 0xF = b mod 16"
  "(b::nat) AND 0x7 = b mod 8" "(b::nat) AND 0x3F = b mod 64"
proof -
  have m: "(0x1F::nat) = mask 5" "(0xF::nat) = mask 4" "(0x7::nat) = mask 3" "(0x3F::nat) = mask 6"
    by (simp_all add: mask_eq_exp_minus_1)
  show "b AND 0x1F = b mod 32" "b AND 0xF = b mod 16" "b AND 0x7 = b mod 8" "b AND 0x3F = b mod 64"
    unfolding m by (simp_all flip: take_bit_eq_mask add: take_bit_eq_mod)
qed

lemma shift_or_nat: "push_bit 6 (cp::nat) OR (b AND 0x3F) = cp * 64 + b mod 64"
proof -
  have e: "b AND 0x3F = take_bit 6 b"
    by (simp add: and_mask_nat take_bit_eq_mod)
  have "push_bit 6 cp + take_bit 6 b = push_bit 6 cp OR take_bit 6 b"
    by (rule disjunctive_add) (auto simp: bit_simps)
  then show ?thesis
    by (simp add: e push_bit_eq_mult take_bit_eq_mod)
qed

lemma handler_ascii: "b \<le> 0x7F \<Longrightarrow> utf8_handler utf8_initial b = (utf8_initial, [b])"
  by (simp add: utf8_handler_def utf8_lead_def utf8_initial_def)

lemma handler_lead2:
  "0xC2 \<le> b \<Longrightarrow> b \<le> 0xDF \<Longrightarrow>
   utf8_handler utf8_initial b = (utf8_initial\<lparr>bytes_needed := 1, code_point := b mod 32\<rparr>, [])"
  by (simp add: utf8_handler_def utf8_lead_def utf8_initial_def and_mask_nat)

lemma handler_lead3:
  "0xE0 \<le> b \<Longrightarrow> b \<le> 0xEF \<Longrightarrow>
   utf8_handler utf8_initial b =
     (utf8_initial\<lparr>lower_boundary := (if b = 0xE0 then 0xA0 else 0x80),
        upper_boundary := (if b = 0xED then 0x9F else 0xBF),
        bytes_needed := 2, code_point := b mod 16\<rparr>, [])"
  by (simp add: utf8_handler_def utf8_lead_def utf8_initial_def and_mask_nat)

lemma handler_lead4:
  "0xF0 \<le> b \<Longrightarrow> b \<le> 0xF4 \<Longrightarrow>
   utf8_handler utf8_initial b =
     (utf8_initial\<lparr>lower_boundary := (if b = 0xF0 then 0x90 else 0x80),
        upper_boundary := (if b = 0xF4 then 0x8F else 0xBF),
        bytes_needed := 3, code_point := b mod 8\<rparr>, [])"
  by (simp add: utf8_handler_def utf8_lead_def utf8_initial_def and_mask_nat)

lemma handler_continue:
  "bytes_needed d \<noteq> 0 \<Longrightarrow> lower_boundary d \<le> b \<Longrightarrow> b \<le> upper_boundary d \<Longrightarrow>
   bytes_seen d + 1 \<noteq> bytes_needed d \<Longrightarrow>
   utf8_handler d b =
     (d\<lparr>lower_boundary := 0x80, upper_boundary := 0xBF,
        code_point := code_point d * 64 + b mod 64, bytes_seen := bytes_seen d + 1\<rparr>, [])"
  by (simp add: utf8_handler_def shift_or_nat Let_def)

lemma handler_complete:
  "bytes_needed d \<noteq> 0 \<Longrightarrow> lower_boundary d \<le> b \<Longrightarrow> b \<le> upper_boundary d \<Longrightarrow>
   bytes_seen d + 1 = bytes_needed d \<Longrightarrow>
   utf8_handler d b = (utf8_initial, [code_point d * 64 + b mod 64])"
  by (simp add: utf8_handler_def shift_or_nat Let_def)
lemma utf8_run_step:
  "utf8_handler d b = (d', out) \<Longrightarrow>
   utf8_run d (b # bs) = (fst (utf8_run d' bs), out @ snd (utf8_run d' bs))"
  by (simp split: prod.splits)

lemma mod_offset: "z < k \<Longrightarrow> (k * n + z) mod k = (z::nat)"
  by simp

lemma continuation_low_bits: "r < 64 \<Longrightarrow> (0x80 + r) mod 64 = (r::nat)"
  using mod_offset [of r 64 2] by simp

text \<open>The decoder on a lead byte and continuation bytes given by their payloads.\<close>

lemma steps2:
  fixes z r :: nat
  assumes "2 \<le> z" "z < 32" "r < 64"
  defines "d1 \<equiv> utf8_initial\<lparr>bytes_needed := 1, code_point := z\<rparr>"
  shows "utf8_handler utf8_initial (0xC0 + z) = (d1, [])"
    and "utf8_handler d1 (0x80 + r) = (utf8_initial, [z * 64 + r])"
proof -
  have r: "0xC2 \<le> 0xC0 + z" "0xC0 + z \<le> 0xDF"
    using assms(1,2) by simp_all
  have m: "(0xC0 + z) mod 32 = z"
    using mod_offset [of z 32 6] assms(2) by simp
  show "utf8_handler utf8_initial (0xC0 + z) = (d1, [])"
    using handler_lead2 [OF r] by (simp add: m d1_def)
  have "utf8_handler d1 (0x80 + r) = (utf8_initial, [code_point d1 * 64 + (0x80 + r) mod 64])"
    using assms(3) by (intro handler_complete) (simp_all add: d1_def utf8_initial_def)
  then show "utf8_handler d1 (0x80 + r) = (utf8_initial, [z * 64 + r])"
    using continuation_low_bits [OF assms(3)] by (simp add: d1_def)
qed

lemma steps3:
  fixes z r2 r1 :: nat
  assumes "z < 16" "r2 < 64" "r1 < 64" "z = 0 \<longrightarrow> 32 \<le> r2" "z = 13 \<longrightarrow> r2 < 32"
  defines "d1 \<equiv> utf8_initial\<lparr>lower_boundary := (if z = 0 then 0xA0 else 0x80),
        upper_boundary := (if z = 13 then 0x9F else 0xBF),
        bytes_needed := 2, code_point := z\<rparr>"
    and "d2 \<equiv> utf8_initial\<lparr>bytes_needed := 2, code_point := z * 64 + r2, bytes_seen := 1\<rparr>"
  shows "utf8_handler utf8_initial (0xE0 + z) = (d1, [])"
    and "utf8_handler d1 (0x80 + r2) = (d2, [])"
    and "utf8_handler d2 (0x80 + r1) = (utf8_initial, [(z * 64 + r2) * 64 + r1])"
proof -
  have r: "0xE0 \<le> 0xE0 + z" "0xE0 + z \<le> 0xEF"
    using assms(1) by simp_all
  have m: "(0xE0 + z) mod 16 = z"
    using mod_offset [of z 16 14] assms(1) by simp
  show "utf8_handler utf8_initial (0xE0 + z) = (d1, [])"
    using handler_lead3 [OF r] by (simp add: m d1_def)
  have "utf8_handler d1 (0x80 + r2) =
      (d1\<lparr>lower_boundary := 0x80, upper_boundary := 0xBF,
        code_point := code_point d1 * 64 + (0x80 + r2) mod 64,
        bytes_seen := bytes_seen d1 + 1\<rparr>, [])"
    using assms(2,4,5) by (intro handler_continue) (auto simp: d1_def utf8_initial_def)
  then show "utf8_handler d1 (0x80 + r2) = (d2, [])"
    using continuation_low_bits [OF assms(2)] by (simp add: d1_def d2_def utf8_initial_def)
  have "utf8_handler d2 (0x80 + r1) = (utf8_initial, [code_point d2 * 64 + (0x80 + r1) mod 64])"
    using assms(3) by (intro handler_complete) (simp_all add: d2_def utf8_initial_def)
  then show "utf8_handler d2 (0x80 + r1) = (utf8_initial, [(z * 64 + r2) * 64 + r1])"
    using continuation_low_bits [OF assms(3)] by (simp add: d2_def)
qed

lemma steps4:
  fixes z r3 r2 r1 :: nat
  assumes "z \<le> 4" "r3 < 64" "r2 < 64" "r1 < 64" "z = 0 \<longrightarrow> 16 \<le> r3" "z = 4 \<longrightarrow> r3 < 16"
  defines "d1 \<equiv> utf8_initial\<lparr>lower_boundary := (if z = 0 then 0x90 else 0x80),
        upper_boundary := (if z = 4 then 0x8F else 0xBF),
        bytes_needed := 3, code_point := z\<rparr>"
    and "d2 \<equiv> utf8_initial\<lparr>bytes_needed := 3, code_point := z * 64 + r3, bytes_seen := 1\<rparr>"
    and "d3 \<equiv> utf8_initial\<lparr>bytes_needed := 3, code_point := (z * 64 + r3) * 64 + r2,
        bytes_seen := 2\<rparr>"
  shows "utf8_handler utf8_initial (0xF0 + z) = (d1, [])"
    and "utf8_handler d1 (0x80 + r3) = (d2, [])"
    and "utf8_handler d2 (0x80 + r2) = (d3, [])"
    and "utf8_handler d3 (0x80 + r1) = (utf8_initial, [((z * 64 + r3) * 64 + r2) * 64 + r1])"
proof -
  have r: "0xF0 \<le> 0xF0 + z" "0xF0 + z \<le> 0xF4"
    using assms(1) by simp_all
  have m: "(0xF0 + z) mod 8 = z"
    using mod_offset [of z 8 30] assms(1) by simp
  show "utf8_handler utf8_initial (0xF0 + z) = (d1, [])"
    using handler_lead4 [OF r] by (simp add: m d1_def)
  have "utf8_handler d1 (0x80 + r3) =
      (d1\<lparr>lower_boundary := 0x80, upper_boundary := 0xBF,
        code_point := code_point d1 * 64 + (0x80 + r3) mod 64,
        bytes_seen := bytes_seen d1 + 1\<rparr>, [])"
    using assms(2,5,6) by (intro handler_continue) (auto simp: d1_def utf8_initial_def)
  then show "utf8_handler d1 (0x80 + r3) = (d2, [])"
    using continuation_low_bits [OF assms(2)] by (simp add: d1_def d2_def utf8_initial_def)
  have "utf8_handler d2 (0x80 + r2) =
      (d2\<lparr>lower_boundary := 0x80, upper_boundary := 0xBF,
        code_point := code_point d2 * 64 + (0x80 + r2) mod 64,
        bytes_seen := bytes_seen d2 + 1\<rparr>, [])"
    using assms(3) by (intro handler_continue) (simp_all add: d2_def utf8_initial_def)
  then show "utf8_handler d2 (0x80 + r2) = (d3, [])"
    using continuation_low_bits [OF assms(3)] by (simp add: d2_def d3_def utf8_initial_def)
  have "utf8_handler d3 (0x80 + r1) = (utf8_initial, [code_point d3 * 64 + (0x80 + r1) mod 64])"
    using assms(4) by (intro handler_complete) (simp_all add: d3_def utf8_initial_def)
  then show "utf8_handler d3 (0x80 + r1) = (utf8_initial, [((z * 64 + r3) * 64 + r2) * 64 + r1])"
    using continuation_low_bits [OF assms(4)] by (simp add: d3_def)
qed
lemma fst_utf8_run_Cons:
  "fst (utf8_run d (b # bs)) = fst (utf8_run (fst (utf8_handler d b)) bs)"
  by (simp split: prod.splits)

lemma snd_utf8_run_Cons:
  "snd (utf8_run d (b # bs)) = snd (utf8_handler d b) @ snd (utf8_run (fst (utf8_handler d b)) bs)"
  by (simp split: prod.splits)

lemma emits_last_run:
  "emits_last d bs c \<Longrightarrow>
   fst (utf8_run d (bs @ rest)) = fst (utf8_run utf8_initial rest)
   \<and> snd (utf8_run d (bs @ rest)) = c # snd (utf8_run utf8_initial rest)"
proof (induction d bs c rule: emits_last.induct)
  case (1 d c)
  then show ?case by simp
next
  case (2 d b c)
  then show ?case
    by (simp add: fst_utf8_run_Cons snd_utf8_run_Cons del: utf8_run.simps)
next
  case (3 d b b' bs c)
  then show ?case
    by (simp add: fst_utf8_run_Cons [of d b] snd_utf8_run_Cons [of d b] del: utf8_run.simps)
qed

lemma emits_last_prefix:
  "emits_last d (p @ q) c \<Longrightarrow> p \<noteq> [] \<Longrightarrow> q \<noteq> [] \<Longrightarrow> snd (utf8_run d p) = []"
proof (induction p arbitrary: d)
  case Nil
  then show ?case by simp
next
  case (Cons b p)
  show ?case
  proof (cases p)
    case Nil
    with Cons.prems obtain b' bs where "q = b' # bs" by (cases q) auto
    with Cons.prems Nil show ?thesis
      by (simp add: snd_utf8_run_Cons del: utf8_run.simps(2))
  next
    case (Cons b' p')
    with Cons.prems(1) have h: "snd (utf8_handler d b) = []"
      "emits_last (fst (utf8_handler d b)) (p @ q) c"
      by simp_all
    from Cons.IH [OF h(2) _ Cons.prems(3)] Cons h(1) show ?thesis
      by (simp add: snd_utf8_run_Cons [of d b] del: utf8_run.simps(2))
  qed
qed

lemma base64_digits:
  fixes c :: nat
  shows "c div 0x1000 = c div 64 div 64" "c div 0x40000 = c div 64 div 64 div 64"
    "c = c div 64 * 64 + c mod 64"
  by (simp_all add: div_mult2_eq [symmetric])

lemma emits_last_encode:
  assumes "scalar_value c"
  shows "emits_last utf8_initial (utf8_encode c) c"
proof -
  define r1 z1 r2 z2 r3 z3 where "r1 = c mod 64" and "z1 = c div 64" and "r2 = z1 mod 64"
    and "z2 = z1 div 64" and "r3 = z2 mod 64" and "z3 = z2 div 64"
  have eq: "c = z1 * 64 + r1" "z1 = z2 * 64 + r2" "z2 = z3 * 64 + r3"
    and lt: "r1 < 64" "r2 < 64" "r3 < 64"
    by (simp_all add: r1_def z1_def r2_def z2_def r3_def z3_def)
  have dv: "c div 0x40 = z1" "c mod 0x40 = r1" "c div 0x1000 = z2" "c div 0x40000 = z3"
    by (simp_all add: base64_digits(1,2) r1_def z1_def r2_def z2_def r3_def z3_def)
  consider "c < 0x80" | "0x80 \<le> c" "c < 0x800" | "0x800 \<le> c" "c < 0x10000"
    | "0x10000 \<le> c" "c \<le> 0x10FFFF"
    using assms unfolding scalar_value_def by linarith
  then show ?thesis
  proof cases
    case 1
    then show ?thesis by (simp add: utf8_encode_def handler_ascii)
  next
    case 2
    have z: "2 \<le> z1" "z1 < 32" using 2 eq(1) lt(1) by linarith+
    have "utf8_encode c = [0xC0 + z1, 0x80 + r1]"
      using 2 by (simp add: utf8_encode_def dv)
    moreover have "z1 * 64 + r1 = c" using eq(1) by simp
    ultimately show ?thesis
      using steps2 [OF z lt(1)] by simp
  next
    case 3
    have z: "z2 < 16" "z2 = 0 \<longrightarrow> 32 \<le> r2" "z2 = 13 \<longrightarrow> r2 < 32"
      using 3 assms eq(1,2) lt(1,2) unfolding scalar_value_def by linarith+
    have "utf8_encode c = [0xE0 + z2, 0x80 + r2, 0x80 + r1]"
      using 3 by (simp add: utf8_encode_def dv r2_def)
    moreover have "(z2 * 64 + r2) * 64 + r1 = c" using eq(1,2) by simp
    ultimately show ?thesis
      using steps3 [OF z(1) lt(2) lt(1) z(2,3)] by simp
  next
    case 4
    have z: "z3 \<le> 4" "z3 = 0 \<longrightarrow> 16 \<le> r3" "z3 = 4 \<longrightarrow> r3 < 16"
      using 4 eq lt by linarith+
    have "utf8_encode c = [0xF0 + z3, 0x80 + r3, 0x80 + r2, 0x80 + r1]"
      using 4 by (simp add: utf8_encode_def dv r2_def r3_def)
    moreover have "((z3 * 64 + r3) * 64 + r2) * 64 + r1 = c" using eq by simp
    ultimately show ?thesis
      using steps4 [OF z(1) lt(3) lt(2) lt(1) z(2,3)] by simp
  qed
qed
lemma utf8_run_append:
  "fst (utf8_run d (xs @ ys)) = fst (utf8_run (fst (utf8_run d xs)) ys)"
  "snd (utf8_run d (xs @ ys)) = snd (utf8_run d xs) @ snd (utf8_run (fst (utf8_run d xs)) ys)"
  by (induction xs arbitrary: d)
     (simp_all add: fst_utf8_run_Cons snd_utf8_run_Cons del: utf8_run.simps(2))

lemma fst_serialize_Cons: "fst (serialize seen (c # cs)) = fst (serialize True cs)"
  by (simp split: prod.splits)

lemma snd_serialize_Cons:
  "snd (serialize seen (c # cs)) =
     (if \<not> seen \<and> c = 0xFEFF then snd (serialize True cs)
      else utf16 c @ snd (serialize True cs))"
  by (simp split: prod.splits)

lemma serialize_append:
  "fst (serialize seen (xs @ ys)) = fst (serialize (fst (serialize seen xs)) ys)"
  "snd (serialize seen (xs @ ys)) =
     snd (serialize seen xs) @ snd (serialize (fst (serialize seen xs)) ys)"
  by (induction xs arbitrary: seen)
     (simp_all add: fst_serialize_Cons snd_serialize_Cons del: serialize.simps(2))

lemma serialize_seen: "snd (serialize True cps) = concat (map utf16 cps)"
  by (induction cps) (simp_all add: snd_serialize_Cons del: serialize.simps(2))

lemma serialize_fresh: "snd (serialize False cps) = concat (map utf16 (strip_bom cps))"
  by (cases cps)
     (simp_all add: strip_bom_def serialize_seen snd_serialize_Cons del: serialize.simps(2))

lemma run_text:
  assumes "\<forall>c\<in>set cps. scalar_value c"
  shows "fst (utf8_run utf8_initial (concat (map utf8_encode cps) @ rest)) =
           fst (utf8_run utf8_initial rest)
       \<and> snd (utf8_run utf8_initial (concat (map utf8_encode cps) @ rest)) =
           cps @ snd (utf8_run utf8_initial rest)"
  using assms
proof (induction cps)
  case Nil
  then show ?case by simp
next
  case (Cons c cps)
  then have "emits_last utf8_initial (utf8_encode c) c"
    by (simp add: emits_last_encode)
  from emits_last_run [OF this, of "concat (map utf8_encode cps) @ rest"] Cons show ?case
    by simp
qed

lemma decode_stream_ready:
  assumes "ready td"
  shows "fst (decode_stream td v) =
           \<lparr>decoder = fst (utf8_run (decoder td) (map unat v)),
            bom_seen = fst (serialize (bom_seen td) (snd (utf8_run (decoder td) (map unat v)))),
            do_not_flush = True\<rparr>"
    and "snd (decode_stream td v) =
           snd (serialize (bom_seen td) (snd (utf8_run (decoder td) (map unat v))))"
  using assms by (cases td; auto simp: ready_def decode_stream_def split: prod.splits)+

lemma decode_chunks_concat:
  assumes "ready td"
  shows "concat (snd (decode_chunks td cs)) =
           snd (serialize (bom_seen td) (snd (utf8_run (decoder td) (map unat (concat cs)))))"
  using assms
proof (induction cs arbitrary: td)
  case Nil
  then show ?case by simp
next
  case (Cons v vs)
  have "ready (fst (decode_stream td v))"
    by (simp add: decode_stream_ready(1) [OF Cons.prems] ready_def)
  from Cons.IH [OF this] show ?case
    by (simp add: decode_stream_ready [OF Cons.prems] utf8_run_append serialize_append)
qed

lemma decode_text:
  assumes "\<forall>c\<in>set cps. scalar_value c"
    and "map unat (concat cs) = concat (map utf8_encode cps) @ p"
    and "snd (utf8_run utf8_initial p) = []"
  shows "concat (snd (decode_chunks new_TextDecoder cs)) = concat (map utf16 (strip_bom cps))"
proof -
  have "ready new_TextDecoder" by (simp add: ready_def new_TextDecoder_def)
  from decode_chunks_concat [OF this, of cs] run_text [OF assms(1), of p] assms(2,3)
  show ?thesis
    by (simp add: new_TextDecoder_def serialize_fresh)
qed

section \<open>Empty submissions\<close>

text \<open>
  Claim C5.  When the input is empty or consists of white space only, a submission
  returns at the guard of line 42: the session is left exactly as it was, so no
  message is appended, no request is sent and no state is written.
\<close>

theorem blank_submission_ignored:
  assumes "\<forall>c\<in>set (input (ui \<sigma>)). is_white_space c"
  shows "step (Submitted clk) \<sigma> = \<sigma>"
  using assms by (simp add: handleSubmit_def trim_empty_iff)

theorem blank_submission_ignored_witness:
  "input (ui (step (Typed [0x20, 0x9, 0xA0]) (initial_session 0))) = [0x20, 0x9, 0xA0]
   \<and> step (Submitted \<lparr>now_user = 7, date_user = 7, now_assistant = 7, date_assistant = 7\<rparr>)
        (step (Typed [0x20, 0x9, 0xA0]) (initial_session 0))
     = step (Typed [0x20, 0x9, 0xA0]) (initial_session 0)"
proof -
  have "\<forall>c\<in>set (input (ui (step (Typed [0x20, 0x9, 0xA0]) (initial_session 0)))).
          is_white_space c"
    by (simp add: setInput_def commit_def is_white_space_def)
  from blank_submission_ignored [OF this] show ?thesis
    by (simp add: setInput_def commit_def)
qed

section \<open>Applying a fragment\<close>

text \<open>
  Claim C2 says that a fragment for an id that is absent, or whose message is not
  streaming, fails with \<open>NotFoundError\<close>.  The updater of lines 89-95 has no failure:
  on the seeded conversation, id \<open>2\<close> is absent and the result is the conversation
  unchanged; id \<open>1\<close> is the greeting, which is not streaming, and the fragment is
  appended to it.  The operation as the specification words it fails in both cases.
\<close>

theorem apply_fragment_counterexample:
  "spec_appendFragment (js ''2'') (js ''x'') [seed 0] = Inl NotFoundError
   \<and> apply_fragment (js ''2'') (js ''x'') [seed 0] = [seed 0]
   \<and> spec_appendFragment (js ''1'') (js ''x'') [seed 0] = Inl NotFoundError
   \<and> apply_fragment (js ''1'') (js ''x'') [seed 0] = [(seed 0)\<lparr>content := greeting @ js ''x''\<rparr>]"
  by (simp add: spec_appendFragment_def apply_fragment_def seed_def js_def streaming_def)

text \<open>
  Claim C2, amended.  Applying a fragment never fails: when no message has the id the
  conversation comes back unchanged; every message that has the id gets the fragment
  appended, whatever its streaming status; every other message is left as it is.  In
  the loop, a call that reads a chunk writes the messages so updated and goes on waiting
  for the next read: the \<open>catch\<close> block is not entered.
\<close>

theorem apply_fragment_never_fails:
  "(tid \<notin> msg_id ` set msgs \<longrightarrow> apply_fragment tid f msgs = msgs)
   \<and> (\<forall>i<length msgs. msg_id (msgs ! i) = tid \<longrightarrow>
         apply_fragment tid f msgs ! i = (msgs ! i)\<lparr>content := content (msgs ! i) @ f\<rparr>)
   \<and> (\<forall>i<length msgs. msg_id (msgs ! i) \<noteq> tid \<longrightarrow> apply_fragment tid f msgs ! i = msgs ! i)
   \<and> length (apply_fragment tid f msgs) = length msgs
   \<and> (k < length (handlers \<sigma>) \<and> phase (handlers \<sigma> ! k) = AwaitingRead td \<longrightarrow>
        messages (ui (resume_read k (ReadChunk v) \<sigma>)) =
          apply_fragment (target (handlers \<sigma> ! k)) (snd (decode_stream td v)) (messages (ui \<sigma>))
        \<and> phase (handlers (resume_read k (ReadChunk v) \<sigma>) ! k) =
          AwaitingRead (fst (decode_stream td v))
        \<and> isLoading (ui (resume_read k (ReadChunk v) \<sigma>)) = isLoading (ui \<sigma>))"
proof (intro conjI impI allI)
  show "apply_fragment tid f msgs = msgs" if "tid \<notin> msg_id ` set msgs"
    using that by (rule apply_fragment_absent)
  show "apply_fragment tid f msgs ! i = (msgs ! i)\<lparr>content := content (msgs ! i) @ f\<rparr>"
    if "i < length msgs" "msg_id (msgs ! i) = tid" for i
    using that by (simp add: apply_fragment_def)
  show "apply_fragment tid f msgs ! i = msgs ! i"
    if "i < length msgs" "msg_id (msgs ! i) \<noteq> tid" for i
    using that by (simp add: apply_fragment_def)
  show "length (apply_fragment tid f msgs) = length msgs"
    by simp
next
  assume "k < length (handlers \<sigma>) \<and> phase (handlers \<sigma> ! k) = AwaitingRead td"
  then have k: "k < length (handlers \<sigma>)" and p: "phase (handlers \<sigma> ! k) = AwaitingRead td"
    by simp_all
  note e = read_chunk_step [OF k p, of v]
  show "messages (ui (resume_read k (ReadChunk v) \<sigma>)) =
      apply_fragment (target (handlers \<sigma> ! k)) (snd (decode_stream td v)) (messages (ui \<sigma>))"
    by (simp add: e)
  show "phase (handlers (resume_read k (ReadChunk v) \<sigma>) ! k) =
      AwaitingRead (fst (decode_stream td v))"
    using k by (simp add: e)
  show "isLoading (ui (resume_read k (ReadChunk v) \<sigma>)) = isLoading (ui \<sigma>)"
    by (simp add: e)
qed

theorem apply_fragment_never_fails_witness:
  "js ''2'' \<notin> msg_id ` set [seed 0]
   \<and> apply_fragment (js ''2'') (js ''x'') [seed 0] = [seed 0]
   \<and> isStreaming (seed 0) = None
   \<and> apply_fragment (js ''1'') (js ''x'') [seed 0] ! 0 = (seed 0)\<lparr>content := greeting @ js ''x''\<rparr>
   \<and> messages (ui (resume_read 0 (ReadChunk [0x78]) stray_reader)) = [seed 0]
   \<and> phase (handlers (resume_read 0 (ReadChunk [0x78]) stray_reader) ! 0) =
       AwaitingRead (fst (decode_stream new_TextDecoder [0x78]))"
proof -
  have a: "js ''2'' \<notin> msg_id ` set [seed 0]" by (simp add: seed_def js_def)
  have b: "msg_id ([seed 0] ! 0) = js ''1''" by (simp add: seed_def)
  from apply_fragment_never_fails [of "js ''2''" "[seed 0]" "js ''x''"] a
  have c: "apply_fragment (js ''2'') (js ''x'') [seed 0] = [seed 0]" by blast
  from apply_fragment_never_fails [of "js ''1''" "[seed 0]" "js ''x''"] b
  have d: "apply_fragment (js ''1'') (js ''x'') [seed 0] ! 0 = ([seed 0] ! 0)\<lparr>content := content ([seed 0] ! 0) @ js ''x''\<rparr>"
    by simp
  have h: "0 < length (handlers stray_reader)
      \<and> phase (handlers stray_reader ! 0) = AwaitingRead new_TextDecoder"
    by (simp add: stray_reader_def)
  have m: "messages (ui stray_reader) = [seed 0]" "target (handlers stray_reader ! 0) = js ''2''"
    by (simp_all add: stray_reader_def initial_component_def)
  from apply_fragment_never_fails [of _ _ _ 0 stray_reader new_TextDecoder "[0x78]"] h
  have e: "messages (ui (resume_read 0 (ReadChunk [0x78]) stray_reader)) =
        apply_fragment (js ''2'') (snd (decode_stream new_TextDecoder [0x78])) [seed 0]"
      "phase (handlers (resume_read 0 (ReadChunk [0x78]) stray_reader) ! 0) =
        AwaitingRead (fst (decode_stream new_TextDecoder [0x78]))"
    unfolding m by blast+
  have "apply_fragment (js ''2'') (snd (decode_stream new_TextDecoder [0x78])) [seed 0] = [seed 0]"
    using a by (rule apply_fragment_absent)
  with e show ?thesis using a c d by (simp add: seed_def)
qed

section \<open>The outcome of an exchange\<close>

text \<open>
  Claim C1 says that a response with a non-success status ends in the failure state.
  The source never reads \<open>response.status\<close> or \<open>response.ok\<close>: with status 500 and
  the body \<open>fail\<close>, the placeholder ends finalized with the content \<open>fail\<close>, which is
  not the error message.
\<close>

theorem non_success_status_counterexample:
  "\<not> (200 \<le> (500::nat) \<and> (500::nat) \<le> 299)
   \<and> content (placeholder typed_hi (exec (exchange 0 clock_100 (FetchResolved 500 True)
         [ReadChunk [0x66, 0x61, 0x69, 0x6C], ReadDone]) typed_hi)) = js ''fail''
   \<and> js ''fail'' \<noteq> errorMessage
   \<and> isStreaming (placeholder typed_hi (exec (exchange 0 clock_100 (FetchResolved 500 True)
         [ReadChunk [0x66, 0x61, 0x69, 0x6C], ReadDone]) typed_hi)) = Some False"
proof -
  note t = placeholder_success [OF typed_hi_guard, of clock_100 500 "[[0x66, 0x61, 0x69, 0x6C]]",
      unfolded decode_fail typed_hi_handlers]
  have "js ''fail'' \<noteq> errorMessage"
    by (simp add: js_def errorMessage_def)
  then show ?thesis
    using t by simp
qed

text \<open>
  Claim C1, amended.  An accepted submission whose response has a body ends, whatever
  the status, success or not, with the placeholder finalized and holding the decoded
  body.  The placeholder is replaced by the fixed error message and finalized when the
  fetch rejects and when the response has no body.
\<close>

theorem status_is_not_inspected:
  assumes "trim (input (ui \<sigma>)) \<noteq> []" "\<not> isLoading (ui \<sigma>)"
  shows "placeholder \<sigma> (exec (exchange (length (handlers \<sigma>)) clk (FetchResolved status True)
            (map ReadChunk cs @ [ReadDone])) \<sigma>) =
           (assistantMessage clk)\<lparr>content := concat (snd (decode_chunks new_TextDecoder cs)),
              isStreaming := Some False\<rparr>
       \<and> placeholder \<sigma> (exec (exchange (length (handlers \<sigma>)) clk FetchRejected []) \<sigma>) =
           (assistantMessage clk)\<lparr>content := errorMessage, isStreaming := Some False\<rparr>
       \<and> placeholder \<sigma> (exec (exchange (length (handlers \<sigma>)) clk (FetchResolved status False) []) \<sigma>) =
           (assistantMessage clk)\<lparr>content := errorMessage, isStreaming := Some False\<rparr>"
  using placeholder_success [OF assms] placeholder_fetch_failed(1) [OF assms]
  by simp

theorem status_is_not_inspected_witness:
  "trim (input (ui typed_hi)) \<noteq> [] \<and> \<not> isLoading (ui typed_hi)
   \<and> placeholder typed_hi (exec (exchange 0 clock_100 (FetchResolved 404 True)
         [ReadChunk [0x4E, 0x6F], ReadChunk [0x21], ReadDone]) typed_hi) =
       (assistantMessage clock_100)\<lparr>content := js ''No!'', isStreaming := Some False\<rparr>
   \<and> placeholder typed_hi (exec (exchange 0 clock_100 (FetchResolved 404 False) []) typed_hi) =
       (assistantMessage clock_100)\<lparr>content := errorMessage, isStreaming := Some False\<rparr>"
proof -
  note t = status_is_not_inspected [OF typed_hi_guard, of clock_100 404 "[[0x4E, 0x6F], [0x21]]",
      unfolded decode_No typed_hi_handlers]
  show ?thesis
    using t typed_hi_guard by (simp add: js_def)
qed


section \<open>Growth of the placeholder\<close>

text \<open>
  Claim C7.  In a successful exchange the contents of the placeholder, in the order in
  which the states are written, are: the empty string, the running concatenations of
  the fragments, and the whole text at the two final writes.  Each is a prefix of all
  later ones.
\<close>

theorem content_grows_by_prefix:
  assumes "trim (input (ui \<sigma>)) \<noteq> []" "\<not> isLoading (ui \<sigma>)"
  shows "map content (placeholder_views \<sigma>
           (exec (exchange (length (handlers \<sigma>)) clk (FetchResolved status True)
              (map ReadChunk cs @ [ReadDone])) \<sigma>)) =
         [] # partials [] (snd (decode_chunks new_TextDecoder cs))
           @ [concat (snd (decode_chunks new_TextDecoder cs)),
              concat (snd (decode_chunks new_TextDecoder cs))]
       \<and> sorted_wrt prefix (map content (placeholder_views \<sigma>
           (exec (exchange (length (handlers \<sigma>)) clk (FetchResolved status True)
              (map ReadChunk cs @ [ReadDone])) \<sigma>)))"
  by (simp only: views_success [OF assms] sorted_contents)

theorem content_grows_by_prefix_witness:
  "trim (input (ui typed_hi)) \<noteq> [] \<and> \<not> isLoading (ui typed_hi)
   \<and> map content (placeholder_views typed_hi
           (exec (exchange 0 clock_100 (FetchResolved 200 True)
              [ReadChunk [0x4E, 0x6F], ReadChunk [0x21], ReadDone]) typed_hi)) =
       [[], js ''No'', js ''No!'', js ''No!'', js ''No!'']
   \<and> sorted_wrt prefix [[], js ''No'', js ''No!'', js ''No!'', js ''No!'']"
proof -
  note t = content_grows_by_prefix [OF typed_hi_guard, of clock_100 200 "[[0x4E, 0x6F], [0x21]]",
      unfolded decode_No typed_hi_handlers]
  show ?thesis
    using t typed_hi_guard by (simp add: js_def)
qed


section \<open>Identifiers\<close>

text \<open>
  Claim C3 says that ids are never reused.  Ids are the decimal strings of \<open>Date.now()\<close>
  and \<open>Date.now() + 1\<close>.  When a later submission reads the same clock value as an
  earlier one (a wall clock that was set back), the two submissions get the same two
  ids; when it reads the value one millisecond after the earlier submission, its user
  message gets the id of the earlier placeholder.
\<close>

theorem clock_repeats_counterexample:
  "\<not> distinct (map msg_id (messages (ui (exec
      [Typed (js ''hi''), Submitted clock_100, Fetched 0 FetchRejected,
       Typed (js ''hi''), Submitted clock_100] (initial_session 0)))))
   \<and> \<not> distinct (map msg_id (messages (ui (exec
      [Typed (js ''hi''), Submitted clock_100, Fetched 0 FetchRejected,
       Typed (js ''hi''), Submitted clock_101] (initial_session 0)))))"
proof -
  have "exec [Typed (js ''hi''), Submitted clock_100, Fetched 0 FetchRejected,
       Typed (js ''hi''), Submitted clk] (initial_session 0) =
       handleSubmit clk (setInput (js ''hi'') (exec (exchange 0 clock_100 FetchRejected []) typed_hi))"
    for clk
    by (simp add: typed_hi_def exchange_def)
  then show ?thesis
    by (simp add: ids_handleSubmit rejected_exchange js_hi_not_blank)
       (simp add: clock_100_def clock_101_def)
qed

text \<open>
  Claim C3, amended.  If in every submission the first \<open>Date.now()\<close> is greater than
  every number used for an id before it (greater than 1, the seeded id, and greater than
  the previous submission's second reading plus one) and the second reading is not
  earlier than the first, then all ids of the conversation are pairwise distinct.
\<close>

theorem ids_distinct_when_clock_increases:
  assumes "clocks_increasing 1 evs"
  shows "distinct (map msg_id (messages (ui (exec evs (initial_session t0)))))"
  using ids_below_exec [OF ids_below_initial assms] ids_below_distinct by blast


theorem ids_distinct_when_clock_increases_witness:
  "clocks_increasing 1 [Typed (js ''hi''), Submitted clock_100, Fetched 0 FetchRejected,
       Typed (js ''hi''), Submitted clock_300]
   \<and> map msg_id (messages (ui (exec
      [Typed (js ''hi''), Submitted clock_100, Fetched 0 FetchRejected,
       Typed (js ''hi''), Submitted clock_300] (initial_session 0)))) =
      [toString 1, toString 100, toString 101, toString 300, toString 301]
   \<and> distinct [toString 1, toString 100, toString 101, toString 300, toString 301]"
proof -
  let ?evs = "[Typed (js ''hi''), Submitted clock_100, Fetched 0 FetchRejected,
       Typed (js ''hi''), Submitted clock_300]"
  have c: "clocks_increasing 1 ?evs"
    by (simp add: clock_100_def clock_300_def)
  have "exec ?evs (initial_session 0) =
       handleSubmit clock_300 (setInput (js ''hi'') (exec (exchange 0 clock_100 FetchRejected []) typed_hi))"
    by (simp add: typed_hi_def exchange_def)
  then have e: "map msg_id (messages (ui (exec ?evs (initial_session 0)))) =
      [toString 1, toString 100, toString 101, toString 300, toString 301]"
    by (simp add: ids_handleSubmit rejected_exchange js_hi_not_blank) (simp add: clock_300_def)
  from ids_distinct_when_clock_increases [OF c, of 0] c e show ?thesis
    by simp
qed

section \<open>Single streaming and the busy flag\<close>

text \<open>
  Claim C6.  Whatever events happen in whatever order after mount (typing, submissions,
  fetches and reads settling), every component state ever written by a state setter,
  the initial one included, has at most one streaming message.
\<close>

theorem at_most_one_streaming:
  "\<forall>s\<in>set (history (exec evs (initial_session t0))).
     length (filter streaming (messages s)) \<le> 1"
  using single_flight_history [OF single_flight_reachable, of _ evs t0]
  by (simp add: calm_def)

theorem at_most_one_streaming_witness:
  "ui (exec (Typed (js ''hi'') # exchange 0 clock_100 (FetchResolved 200 True) [ReadChunk [0x4E, 0x6F]])
         (initial_session 0))
     \<in> set (history (exec (Typed (js ''hi'') # exchange 0 clock_100 (FetchResolved 200 True)
         [ReadChunk [0x4E, 0x6F]]) (initial_session 0)))
   \<and> length (filter streaming (messages (ui (exec (Typed (js ''hi'') # exchange 0 clock_100
         (FetchResolved 200 True) [ReadChunk [0x4E, 0x6F]]) (initial_session 0))))) \<le> 1"
  using at_most_one_streaming [of "Typed (js ''hi'') # exchange 0 clock_100 (FetchResolved 200 True)
      [ReadChunk [0x4E, 0x6F]]" 0] mid_stream(1)
  by (simp only: typed_hi_exec)

text \<open>
  Claim C8.  For every session reachable after mount:
  in every state ever written, a streaming message implies that the busy flag is on;
  the flag is on exactly while some call has not left its \<open>try\<close> statement;
  an accepted submission sets the flag (line 53, before the placeholder is appended at
  line 64);
  on every exit path of a call (fetch rejected, no body, stream done, read rejected) the
  step writes exactly two states, first the placeholder finalized or replaced with the
  flag still on, then the flag cleared by the \<open>finally\<close> block, after which the flag is
  off and no message streams;
  and a call ends in no other way than by one of these exits.
\<close>

theorem busy_flag_brackets_exchange:
  "(\<forall>s\<in>set (history (exec evs (initial_session t0))).
      (\<exists>m\<in>set (messages s). streaming m) \<longrightarrow> isLoading s)
   \<and> (isLoading (ui (exec evs (initial_session t0))) \<longleftrightarrow>
        (\<exists>h\<in>set (handlers (exec evs (initial_session t0))). phase h \<noteq> Finished))
   \<and> (let \<sigma> = exec evs (initial_session t0) in
        (trim (input (ui \<sigma>)) \<noteq> [] \<and> \<not> isLoading (ui \<sigma>) \<longrightarrow>
           isLoading (ui (step (Submitted clk) \<sigma>)))
        \<and> (\<forall>k<length (handlers \<sigma>). \<forall>e. exits k (phase (handlers \<sigma> ! k)) e \<longrightarrow>
             \<not> isLoading (ui (step e \<sigma>))
             \<and> (\<forall>m\<in>set (messages (ui (step e \<sigma>))). \<not> streaming m)
             \<and> phase (handlers (step e \<sigma>) ! k) = Finished
             \<and> length (history (step e \<sigma>)) = length (history \<sigma>) + 2
             \<and> isLoading (history (step e \<sigma>) ! length (history \<sigma>))
             \<and> (\<forall>m\<in>set (messages (history (step e \<sigma>) ! length (history \<sigma>))). \<not> streaming m)
             \<and> last (history (step e \<sigma>)) = ui (step e \<sigma>))
        \<and> (\<forall>k<length (handlers \<sigma>). \<forall>e. phase (handlers \<sigma> ! k) \<noteq> Finished
             \<and> phase (handlers (step e \<sigma>) ! k) = Finished \<longrightarrow>
             exits k (phase (handlers \<sigma> ! k)) e))"
proof (intro conjI)
  show "\<forall>s\<in>set (history (exec evs (initial_session t0))).
      (\<exists>m\<in>set (messages s). streaming m) \<longrightarrow> isLoading s"
    using single_flight_history [OF single_flight_reachable, of _ evs t0]
    by (auto simp: calm_def filter_empty_conv)
  show "isLoading (ui (exec evs (initial_session t0))) \<longleftrightarrow>
        (\<exists>h\<in>set (handlers (exec evs (initial_session t0))). phase h \<noteq> Finished)"
    unfolding single_flight_loading [OF single_flight_reachable, of evs t0] in_flight_def
    by (metis in_set_conv_nth)
  show "let \<sigma> = exec evs (initial_session t0) in
        (trim (input (ui \<sigma>)) \<noteq> [] \<and> \<not> isLoading (ui \<sigma>) \<longrightarrow>
           isLoading (ui (step (Submitted clk) \<sigma>)))
        \<and> (\<forall>k<length (handlers \<sigma>). \<forall>e. exits k (phase (handlers \<sigma> ! k)) e \<longrightarrow>
             \<not> isLoading (ui (step e \<sigma>))
             \<and> (\<forall>m\<in>set (messages (ui (step e \<sigma>))). \<not> streaming m)
             \<and> phase (handlers (step e \<sigma>) ! k) = Finished
             \<and> length (history (step e \<sigma>)) = length (history \<sigma>) + 2
             \<and> isLoading (history (step e \<sigma>) ! length (history \<sigma>))
             \<and> (\<forall>m\<in>set (messages (history (step e \<sigma>) ! length (history \<sigma>))). \<not> streaming m)
             \<and> last (history (step e \<sigma>)) = ui (step e \<sigma>))
        \<and> (\<forall>k<length (handlers \<sigma>). \<forall>e. phase (handlers \<sigma> ! k) \<noteq> Finished
             \<and> phase (handlers (step e \<sigma>) ! k) = Finished \<longrightarrow>
             exits k (phase (handlers \<sigma> ! k)) e)"
    unfolding Let_def
  proof (intro conjI allI impI)
    fix k e
    assume "k < length (handlers (exec evs (initial_session t0)))"
      and "exits k (phase (handlers (exec evs (initial_session t0)) ! k)) e"
    note x = exit_clears_flag [OF single_flight_reachable this]
    show "\<not> isLoading (ui (step e (exec evs (initial_session t0))))" by (rule x(1))
    show "\<forall>m\<in>set (messages (ui (step e (exec evs (initial_session t0))))). \<not> streaming m"
      by (rule x(2))
    show "phase (handlers (step e (exec evs (initial_session t0))) ! k) = Finished"
      by (rule x(3))
    show "length (history (step e (exec evs (initial_session t0)))) =
        length (history (exec evs (initial_session t0))) + 2"
      by (rule x(4))
    show "isLoading (history (step e (exec evs (initial_session t0))) !
        length (history (exec evs (initial_session t0))))"
      by (rule x(5))
    show "\<forall>m\<in>set (messages (history (step e (exec evs (initial_session t0))) !
        length (history (exec evs (initial_session t0))))). \<not> streaming m"
      by (rule x(6))
    show "last (history (step e (exec evs (initial_session t0)))) =
        ui (step e (exec evs (initial_session t0)))"
      by (rule x(7))
  next
    fix k e
    assume "k < length (handlers (exec evs (initial_session t0)))"
      and "phase (handlers (exec evs (initial_session t0)) ! k) \<noteq> Finished
        \<and> phase (handlers (step e (exec evs (initial_session t0))) ! k) = Finished"
    then show "exits k (phase (handlers (exec evs (initial_session t0)) ! k)) e"
      by (intro finish_only_by_exit) simp_all
  next
    assume "trim (input (ui (exec evs (initial_session t0)))) \<noteq> []
      \<and> \<not> isLoading (ui (exec evs (initial_session t0)))"
    then show "isLoading (ui (step (Submitted clk) (exec evs (initial_session t0))))"
      using accepted_sets_flag(1) [of "exec evs (initial_session t0)" clk] by simp
  qed
qed

theorem busy_flag_brackets_exchange_witness:
  "ui (exec (Typed (js ''hi'') # exchange 0 clock_100 (FetchResolved 200 True) [ReadChunk [0x4E, 0x6F]])
         (initial_session 0))
     \<in> set (history (exec (Typed (js ''hi'') # exchange 0 clock_100 (FetchResolved 200 True)
         [ReadChunk [0x4E, 0x6F]]) (initial_session 0)))
   \<and> (\<exists>m. m \<in> set (messages (ui (exec (Typed (js ''hi'') # exchange 0 clock_100
         (FetchResolved 200 True) [ReadChunk [0x4E, 0x6F]]) (initial_session 0)))) \<and> streaming m)
   \<and> isLoading (ui (exec (Typed (js ''hi'') # exchange 0 clock_100
         (FetchResolved 200 True) [ReadChunk [0x4E, 0x6F]]) (initial_session 0)))
   \<and> trim (input (ui (exec [Typed (js ''hi'')] (initial_session 0)))) \<noteq> []
   \<and> \<not> isLoading (ui (exec [Typed (js ''hi'')] (initial_session 0)))
   \<and> isLoading (ui (step (Submitted clock_100) (exec [Typed (js ''hi'')] (initial_session 0))))
   \<and> exits 0 (phase (handlers (exec (Typed (js ''hi'') # exchange 0 clock_100
         (FetchResolved 200 True) [ReadChunk [0x4E, 0x6F]]) (initial_session 0)) ! 0))
        (Read 0 ReadDone)
   \<and> \<not> isLoading (ui (step (Read 0 ReadDone) (exec (Typed (js ''hi'') # exchange 0 clock_100
         (FetchResolved 200 True) [ReadChunk [0x4E, 0x6F]]) (initial_session 0))))
   \<and> exits 0 (phase (handlers (exec (Typed (js ''hi'') # exchange 0 clock_100
         (FetchResolved 200 True) [ReadChunk [0x4E, 0x6F]]) (initial_session 0)) ! 0))
        (Read 0 ReadRejected)
   \<and> \<not> isLoading (ui (step (Read 0 ReadRejected) (exec (Typed (js ''hi'') # exchange 0 clock_100
         (FetchResolved 200 True) [ReadChunk [0x4E, 0x6F]]) (initial_session 0))))"
proof -
  let ?\<sigma> = "exec (exchange 0 clock_100 (FetchResolved 200 True) [ReadChunk [0x4E, 0x6F]]) typed_hi"
  note t = busy_flag_brackets_exchange [of "Typed (js ''hi'') # exchange 0 clock_100
      (FetchResolved 200 True) [ReadChunk [0x4E, 0x6F]]" 0 clock_100,
      unfolded Let_def typed_hi_exec]
  note t0 = busy_flag_brackets_exchange [of "[Typed (js ''hi'')]" 0 clock_100,
      unfolded Let_def typed_hi_alone]
  have x: "exits 0 (phase (handlers ?\<sigma> ! 0)) (Read 0 ReadDone)"
    "exits 0 (phase (handlers ?\<sigma> ! 0)) (Read 0 ReadRejected)"
    by (simp_all add: mid_stream_call(2))
  from t mid_stream have a: "isLoading (ui ?\<sigma>)"
    by blast
  from t0 typed_hi_guard have b: "isLoading (ui (step (Submitted clock_100) typed_hi))"
    by blast
  from t have "\<forall>k<length (handlers ?\<sigma>). \<forall>e. exits k (phase (handlers ?\<sigma> ! k)) e \<longrightarrow>
      \<not> isLoading (ui (step e ?\<sigma>))"
    by blast
  with mid_stream_call(1) x have c: "\<not> isLoading (ui (step (Read 0 ReadDone) ?\<sigma>))"
    "\<not> isLoading (ui (step (Read 0 ReadRejected) ?\<sigma>))"
    by blast+
  show ?thesis
    unfolding typed_hi_exec exec_Nil
    using mid_stream a b c x typed_hi_guard by blast
qed

section \<open>Characters and chunk boundaries\<close>

text \<open>
  Claim C9.  The decoder created at line 81 keeps its state between the calls of line
  87, so the placeholder after the chunks is the same as if all their bytes had come in
  one chunk, wherever the boundaries fall.  When the bytes are the UTF-8 encoding of a
  text of scalar values, the placeholder's content after the chunks is exactly that text
  in UTF-16: every character split across chunks is there and no replacement character
  is introduced.  (A byte order mark at the very start of a stream is a signature, not
  text: \<open>TextDecoder\<close> removes it, chunked or not.)
\<close>

theorem split_characters_decode:
  assumes "trim (input (ui \<sigma>)) \<noteq> []" "\<not> isLoading (ui \<sigma>)"
  shows "placeholder \<sigma> (exec (exchange (length (handlers \<sigma>)) clk (FetchResolved status True)
            (map ReadChunk cs)) \<sigma>) =
         placeholder \<sigma> (exec (exchange (length (handlers \<sigma>)) clk (FetchResolved status True)
            [ReadChunk (concat cs)]) \<sigma>)
       \<and> ((\<forall>c\<in>set cps. scalar_value c)
            \<and> map unat (concat cs) = concat (map utf8_encode cps) \<longrightarrow>
          placeholder \<sigma> (exec (exchange (length (handlers \<sigma>)) clk (FetchResolved status True)
            (map ReadChunk cs)) \<sigma>) =
           (assistantMessage clk)\<lparr>content := concat (map utf16 (strip_bom cps))\<rparr>
          \<and> placeholder \<sigma> (exec (exchange (length (handlers \<sigma>)) clk (FetchResolved status True)
            (map ReadChunk cs @ [ReadDone])) \<sigma>) =
           (assistantMessage clk)\<lparr>content := concat (map utf16 (strip_bom cps)),
              isStreaming := Some False\<rparr>)"
proof (intro conjI impI)
  have r: "ready new_TextDecoder" by (simp add: ready_def new_TextDecoder_def)
  have "concat (snd (decode_chunks new_TextDecoder cs)) =
      concat (snd (decode_chunks new_TextDecoder [concat cs]))"
    unfolding decode_chunks_concat [OF r] by simp
  then show "placeholder \<sigma> (exec (exchange (length (handlers \<sigma>)) clk (FetchResolved status True)
            (map ReadChunk cs)) \<sigma>) =
         placeholder \<sigma> (exec (exchange (length (handlers \<sigma>)) clk (FetchResolved status True)
            [ReadChunk (concat cs)]) \<sigma>)"
    using placeholder_streaming [OF assms, of clk status cs]
      placeholder_streaming [OF assms, of clk status "[concat cs]"]
    by (simp del: snd_decode_chunks_Cons)
next
  assume "(\<forall>c\<in>set cps. scalar_value c) \<and> map unat (concat cs) = concat (map utf8_encode cps)"
  then have v: "\<forall>c\<in>set cps. scalar_value c"
    and b: "map unat (concat cs) = concat (map utf8_encode cps)"
    by simp_all
  have t: "concat (snd (decode_chunks new_TextDecoder cs)) = concat (map utf16 (strip_bom cps))"
    by (rule decode_text [OF v, where p = "[]"]) (simp_all add: b)
  show "placeholder \<sigma> (exec (exchange (length (handlers \<sigma>)) clk (FetchResolved status True)
            (map ReadChunk cs)) \<sigma>) =
           (assistantMessage clk)\<lparr>content := concat (map utf16 (strip_bom cps))\<rparr>"
    using placeholder_streaming [OF assms, of clk status cs] t by simp
  show "placeholder \<sigma> (exec (exchange (length (handlers \<sigma>)) clk (FetchResolved status True)
            (map ReadChunk cs @ [ReadDone])) \<sigma>) =
           (assistantMessage clk)\<lparr>content := concat (map utf16 (strip_bom cps)),
              isStreaming := Some False\<rparr>"
    using placeholder_success [OF assms, of clk status cs] t by simp
qed

theorem split_characters_decode_witness:
  "trim (input (ui typed_hi)) \<noteq> [] \<and> \<not> isLoading (ui typed_hi)
   \<and> scalar_value 0x48 \<and> scalar_value 0x20AC
   \<and> map unat (concat [[0x48, 0xE2], [0x82], [0xAC :: 8 word]]) =
       concat (map utf8_encode [0x48, 0x20AC])
   \<and> placeholder typed_hi (exec (exchange 0 clock_100 (FetchResolved 200 True)
         [ReadChunk [0x48, 0xE2], ReadChunk [0x82], ReadChunk [0xAC]]) typed_hi) =
       placeholder typed_hi (exec (exchange 0 clock_100 (FetchResolved 200 True)
         [ReadChunk [0x48, 0xE2, 0x82, 0xAC]]) typed_hi)
   \<and> placeholder typed_hi (exec (exchange 0 clock_100 (FetchResolved 200 True)
         [ReadChunk [0x48, 0xE2], ReadChunk [0x82], ReadChunk [0xAC]]) typed_hi) =
       (assistantMessage clock_100)\<lparr>content := [0x48, 0x20AC]\<rparr>"
proof -
  have s: "\<forall>c\<in>set [0x48, 0x20AC]. scalar_value c"
    by (simp add: scalar_value_def)
  have b: "map unat (concat [[0x48, 0xE2], [0x82], [0xAC :: 8 word]]) =
       concat (map utf8_encode [0x48, 0x20AC])"
    by (simp add: utf8_encode_def)
  have t: "concat (map utf16 (strip_bom [0x48, 0x20AC])) = [0x48, 0x20AC]"
    by (simp add: strip_bom_def utf16_def)
  have c: "concat [[0x48, 0xE2], [0x82], [0xAC :: 8 word]] = [0x48, 0xE2, 0x82, 0xAC]"
    by simp
  note w = split_characters_decode [OF typed_hi_guard, of clock_100 200
      "[[0x48, 0xE2], [0x82], [0xAC]]" "[0x48, 0x20AC]", unfolded t typed_hi_handlers]
  from w have
    "placeholder typed_hi (exec (exchange 0 clock_100 (FetchResolved 200 True)
         (map ReadChunk [[0x48, 0xE2], [0x82], [0xAC]])) typed_hi) =
     placeholder typed_hi (exec (exchange 0 clock_100 (FetchResolved 200 True)
         [ReadChunk (concat [[0x48, 0xE2], [0x82], [0xAC]])]) typed_hi)"
    by (rule conjunct1)
  moreover from w s b have
    "placeholder typed_hi (exec (exchange 0 clock_100 (FetchResolved 200 True)
         (map ReadChunk [[0x48, 0xE2], [0x82], [0xAC]])) typed_hi) =
       (assistantMessage clock_100)\<lparr>content := [0x48, 0x20AC]\<rparr>"
    by blast
  ultimately show ?thesis
    unfolding c list.map using typed_hi_guard by (simp add: utf8_encode_def scalar_value_def)
qed

text \<open>
  Claim C10.  The end of the stream adds nothing to the content, whatever the decoder
  still holds: after \<open>done\<close> the source never calls \<open>decode\<close> again, so the bytes of an
  unfinished character are never flushed.  When the stream ends inside a character (the
  bytes are a valid text followed by a proper, non-empty beginning of one more encoded
  character), the exchange ends as a success: the placeholder is finalized with the text
  before the unfinished character and nothing for its bytes, the busy flag is cleared,
  and no error message is written.
\<close>

theorem unfinished_character_dropped:
  assumes "trim (input (ui \<sigma>)) \<noteq> []" "\<not> isLoading (ui \<sigma>)"
  shows "placeholder \<sigma> (exec (exchange (length (handlers \<sigma>)) clk (FetchResolved status True)
            (map ReadChunk cs @ [ReadDone])) \<sigma>) =
         (placeholder \<sigma> (exec (exchange (length (handlers \<sigma>)) clk (FetchResolved status True)
            (map ReadChunk cs)) \<sigma>))\<lparr>isStreaming := Some False\<rparr>
       \<and> ((\<forall>c\<in>set cps. scalar_value c) \<and> scalar_value c \<and> utf8_encode c = p @ q
            \<and> p \<noteq> [] \<and> q \<noteq> []
            \<and> map unat (concat cs) = concat (map utf8_encode cps) @ p \<longrightarrow>
          placeholder \<sigma> (exec (exchange (length (handlers \<sigma>)) clk (FetchResolved status True)
            (map ReadChunk cs @ [ReadDone])) \<sigma>) =
           (assistantMessage clk)\<lparr>content := concat (map utf16 (strip_bom cps)),
              isStreaming := Some False\<rparr>
          \<and> \<not> isLoading (ui (exec (exchange (length (handlers \<sigma>)) clk (FetchResolved status True)
            (map ReadChunk cs @ [ReadDone])) \<sigma>)))"
proof (intro conjI impI)
  show "placeholder \<sigma> (exec (exchange (length (handlers \<sigma>)) clk (FetchResolved status True)
            (map ReadChunk cs @ [ReadDone])) \<sigma>) =
         (placeholder \<sigma> (exec (exchange (length (handlers \<sigma>)) clk (FetchResolved status True)
            (map ReadChunk cs)) \<sigma>))\<lparr>isStreaming := Some False\<rparr>"
    by (simp add: placeholder_streaming [OF assms] placeholder_success [OF assms])
next
  assume h: "(\<forall>c\<in>set cps. scalar_value c) \<and> scalar_value c \<and> utf8_encode c = p @ q
      \<and> p \<noteq> [] \<and> q \<noteq> []
      \<and> map unat (concat cs) = concat (map utf8_encode cps) @ p"
  then have "emits_last utf8_initial (p @ q) c"
    using emits_last_encode [of c] by simp
  then have "snd (utf8_run utf8_initial p) = []"
    using h by (intro emits_last_prefix [of utf8_initial p q c]) simp_all
  with h have t: "concat (snd (decode_chunks new_TextDecoder cs)) =
      concat (map utf16 (strip_bom cps))"
    by (intro decode_text [of cps cs p]) simp_all
  show "placeholder \<sigma> (exec (exchange (length (handlers \<sigma>)) clk (FetchResolved status True)
            (map ReadChunk cs @ [ReadDone])) \<sigma>) =
           (assistantMessage clk)\<lparr>content := concat (map utf16 (strip_bom cps)),
              isStreaming := Some False\<rparr>"
    using placeholder_success [OF assms, of clk status cs] t by simp
  show "\<not> isLoading (ui (exec (exchange (length (handlers \<sigma>)) clk (FetchResolved status True)
            (map ReadChunk cs @ [ReadDone])) \<sigma>))"
    by (simp add: exec_success [OF assms])
qed

theorem unfinished_character_dropped_witness:
  "trim (input (ui typed_hi)) \<noteq> [] \<and> \<not> isLoading (ui typed_hi)
   \<and> scalar_value 0x48 \<and> scalar_value 0x20AC
   \<and> utf8_encode 0x20AC = [0xE2, 0x82] @ [0xAC]
   \<and> map unat (concat [[0x48, 0xE2], [0x82 :: 8 word]]) =
       concat (map utf8_encode [0x48]) @ [0xE2, 0x82]
   \<and> placeholder typed_hi (exec (exchange 0 clock_100 (FetchResolved 200 True)
         [ReadChunk [0x48, 0xE2], ReadChunk [0x82], ReadDone]) typed_hi) =
       (assistantMessage clock_100)\<lparr>content := [0x48], isStreaming := Some False\<rparr>
   \<and> \<not> isLoading (ui (exec (exchange 0 clock_100 (FetchResolved 200 True)
         [ReadChunk [0x48, 0xE2], ReadChunk [0x82], ReadDone]) typed_hi))"
proof -
  have h: "(\<forall>c\<in>set [0x48]. scalar_value c) \<and> scalar_value 0x20AC
      \<and> utf8_encode 0x20AC = [0xE2, 0x82] @ [0xAC]
      \<and> [0xE2, 0x82] \<noteq> ([] :: nat list) \<and> [0xAC] \<noteq> ([] :: nat list)
      \<and> map unat (concat [[0x48, 0xE2], [0x82 :: 8 word]]) =
          concat (map utf8_encode [0x48]) @ [0xE2, 0x82]"
    by (simp add: scalar_value_def utf8_encode_def)
  have t: "concat (map utf16 (strip_bom [0x48])) = [0x48]"
    by (simp add: strip_bom_def utf16_def)
  note w = unfinished_character_dropped [OF typed_hi_guard, of clock_100 200
      "[[0x48, 0xE2], [0x82]]" "[0x48]" "0x20AC" "[0xE2, 0x82]" "[0xAC]",
      unfolded t typed_hi_handlers, THEN conjunct2, rule_format, OF h]
  show ?thesis
    using w typed_hi_guard by (simp add: utf8_encode_def scalar_value_def)
qed

end
